theory Spec2Isabelle
  imports Main "HOL-Library.AList" "HOL-Library.Char_ord" "HOL-Library.List_Lexorder"
    "HOL-Library.Multiset"
begin

section \<open>The test-data helpers of \<^verbatim>\<open>gittip/testing.py\<close>\<close>

text \<open>
  The class \<^verbatim>\<open>Context\<close> loads fixture data into a PostgreSQL database, dumps all
  tables keyed by primary key, and compares two dumps. The embedding follows the source
  method by method. A leading underscore of a Python name is written \<open>u_\<close>
  (\<^verbatim>\<open>_diff\<close> is \<open>u_diff\<close>), \<^verbatim>\<open>__call__\<close> is \<open>call\<close>, and the attributes
  \<^verbatim>\<open>self.db\<close> and \<^verbatim>\<open>self.a\<close> are \<open>self_db\<close> and \<open>self_a\<close>.
\<close>

subsection \<open>Python values: exceptions, dictionaries, lists, strings\<close>

text \<open>
  Every exception the modelled methods can raise is a constructor; a method that can raise
  returns \<open>error + 'a\<close>, with \<open>Inl\<close> for the exception.
\<close>

datatype error =
    AssertionError
  | KeyError
  | IndexError
  | UnboundLocalError
  | AttributeError
  | TypeError
  | ValueError string
  | Exception string

text \<open>
  A Python \<^verbatim>\<open>dict\<close> is an association list with pairwise different keys; the order of
  the list is the order in which \<^verbatim>\<open>items()\<close> enumerates the dictionary. Lookup
  \<^verbatim>\<open>d[k]\<close> raises \<^verbatim>\<open>KeyError\<close> on a missing key, assignment \<^verbatim>\<open>d[k] = v\<close>
  replaces the value of a present key and adds an absent one.
\<close>

type_synonym ('k, 'v) dict = "('k \<times> 'v) list"

definition is_dict :: "('k, 'v) dict \<Rightarrow> bool" where
  "is_dict d = distinct (map fst d)"

definition keys :: "('k, 'v) dict \<Rightarrow> 'k list" where
  "keys d = map fst d"

definition contains :: "('k, 'v) dict \<Rightarrow> 'k \<Rightarrow> bool" where
  "contains d k = (map_of d k \<noteq> None)"

definition getitem :: "('k, 'v) dict \<Rightarrow> 'k \<Rightarrow> error + 'v" where
  "getitem d k = (case map_of d k of None \<Rightarrow> Inl KeyError | Some v \<Rightarrow> Inr v)"

definition setitem :: "('k, 'v) dict \<Rightarrow> 'k \<Rightarrow> 'v \<Rightarrow> ('k, 'v) dict" where
  "setitem d k v = AList.update k v d"

text \<open>List indexing \<^verbatim>\<open>xs[i]\<close> with a non-negative index.\<close>

definition index :: "'a list \<Rightarrow> nat \<Rightarrow> error + 'a" where
  "index xs i = (if i < length xs then Inr (xs ! i) else Inl IndexError)"

text \<open>\<^verbatim>\<open>s.split(sep)\<close> for a separator of one character, and \<^verbatim>\<open>sep.join(xs)\<close>.\<close>

fun str_split :: "char \<Rightarrow> string \<Rightarrow> string list" where
  "str_split sep [] = [[]]"
| "str_split sep (c # cs) =
     (if c = sep then [] # str_split sep cs
      else (case str_split sep cs of
              [] \<Rightarrow> [[c]]
            | w # ws \<Rightarrow> (c # w) # ws))"

fun join :: "string \<Rightarrow> string list \<Rightarrow> string" where
  "join sep [] = []"
| "join sep [x] = x"
| "join sep (x # y # ys) = x @ sep @ join sep (y # ys)"

subsection \<open>The database handle\<close>

text \<open>
  \<^verbatim>\<open>self.db\<close> is an external collaborator. Its state is a value of type \<open>'s\<close>; the
  handle says what the calls of the source do on it. \<open>execute\<close> is
  \<^verbatim>\<open>db.execute(SQL, values)\<close>. \<^verbatim>\<open>db.fetchall\<close> returns \<^verbatim>\<open>None\<close> or the rows of
  the query; the source asks three queries, and each is a field here, typed by the columns it
  selects: the \<^verbatim>\<open>tablename\<close> column of \<^verbatim>\<open>pg_tables\<close>, the columns
  \<^verbatim>\<open>tablename, indexdef\<close> of the \<^verbatim>\<open>%_pkey\<close> rows of \<^verbatim>\<open>pg_indexes\<close>, and
  \<^verbatim>\<open>SELECT * FROM t\<close>, whose rows are dictionaries from column name to value.
  Column values have type \<open>'v\<close>. A call to the database that fails is outside the
  model: \<open>execute\<close> and the queries are total.
\<close>

record pkey_row =
  tablename :: string
  indexdef :: string

type_synonym 'v row = "(string, 'v) dict"
type_synonym 'v table = "('v, 'v row) dict"
type_synonym 'v snapshot = "(string, 'v table) dict"

record ('s, 'v) db =
  execute :: "string \<Rightarrow> 'v list \<Rightarrow> 's \<Rightarrow> 's"
  fetchall_pg_tables :: "'s \<Rightarrow> string list option"
  fetchall_pg_indexes :: "'s \<Rightarrow> pkey_row list option"
  fetchall_select :: "string \<Rightarrow> 's \<Rightarrow> 'v row list option"

subsection \<open>Schema introspection\<close>

text \<open>
  \<^verbatim>\<open>_get_table_names\<close>: the table names of the public schema, sorted.
\<close>

definition u_get_table_names :: "('s, 'v) db \<Rightarrow> 's \<Rightarrow> string list" where
  "u_get_table_names db s =
     (case fetchall_pg_tables db s of
        None \<Rightarrow> []
      | Some tables \<Rightarrow> sort tables)"

text \<open>
  \<^verbatim>\<open>_get_primary_keys\<close>. When the query returns \<^verbatim>\<open>None\<close> the source assigns
  \<^verbatim>\<open>_pkeys = []\<close> and then returns the unbound local \<^verbatim>\<open>pkeys\<close>. Otherwise each
  row's key is \<^verbatim>\<open>row['indexdef'].split('(')[1].split(')')[0]\<close>.
\<close>

definition extract_pkey :: "string \<Rightarrow> error + string" where
  "extract_pkey d =
     (case index (str_split (CHR ''('') d) 1 of
        Inl e \<Rightarrow> Inl e
      | Inr inner \<Rightarrow> index (str_split (CHR '')'') inner) 0)"

fun pkeys_loop :: "pkey_row list \<Rightarrow> (string, string) dict \<Rightarrow> error + (string, string) dict" where
  "pkeys_loop [] pkeys = Inr pkeys"
| "pkeys_loop (row # rows) pkeys =
     (case extract_pkey (indexdef row) of
        Inl e \<Rightarrow> Inl e
      | Inr pkey \<Rightarrow> pkeys_loop rows (setitem pkeys (tablename row) pkey))"

definition u_get_primary_keys :: "('s, 'v) db \<Rightarrow> 's \<Rightarrow> error + (string, string) dict" where
  "u_get_primary_keys db s =
     (case fetchall_pg_indexes db s of
        None \<Rightarrow> Inl UnboundLocalError
      | Some rows \<Rightarrow> pkeys_loop rows [])"

subsection \<open>Comparing two dumps\<close>

text \<open>
  The value \<^verbatim>\<open>_diff\<close> stores for a table is the list
  \<^verbatim>\<open>[len(inserts), len(updates), len(deletes)]\<close> when \<^verbatim>\<open>compact\<close> is set, and the
  dictionary with the keys \<^verbatim>\<open>"inserts"\<close>, \<^verbatim>\<open>"updates"\<close> and \<^verbatim>\<open>"deletes"\<close>
  otherwise.
\<close>

datatype 'v changes =
    Counts "nat list"
  | Changes "'v row list" "'v row list" "'v row list"

text \<open>
  The innermost loop, \<^verbatim>\<open>for colname, value in row.items()\<close>: a column for which
  \<^verbatim>\<open>a_table[key][colname] != value\<close> goes into \<^verbatim>\<open>update\<close>. Both subscripts can
  raise \<^verbatim>\<open>KeyError\<close>. Python's \<^verbatim>\<open>!=\<close> on column values is the parameter \<open>ne\<close> of
  the loops: it need not be the negation of equality, since a NaN (a \<^verbatim>\<open>float\<close> or a
  \<^verbatim>\<open>Decimal\<close>) differs from itself. The keys of a dictionary (table names, column
  names, values of a primary key) are found by equality, as Python finds a key that is equal
  to itself; a NaN is modelled as a column value, not as a value of a primary key.
\<close>

fun update_loop ::
  "('v \<Rightarrow> 'v \<Rightarrow> bool) \<Rightarrow> 'v table \<Rightarrow> 'v \<Rightarrow> (string \<times> 'v) list \<Rightarrow> 'v row \<Rightarrow> error + 'v row" where
  "update_loop ne a_table key [] update = Inr update"
| "update_loop ne a_table key ((colname, value) # items) update =
     (case getitem a_table key of
        Inl e \<Rightarrow> Inl e
      | Inr a_row \<Rightarrow>
          (case getitem a_row colname of
             Inl e \<Rightarrow> Inl e
           | Inr a_value \<Rightarrow>
               update_loop ne a_table key items
                 (if ne a_value value then setitem update colname value else update)))"

text \<open>
  \<^verbatim>\<open>for key, row in b_table.items()\<close>: a key that \<^verbatim>\<open>a_table\<close> lacks is an insert;
  otherwise a non-empty \<^verbatim>\<open>update\<close> gets the primary key, \<^verbatim>\<open>update[pkey] = row[pkey]\<close>
  with \<^verbatim>\<open>pkey = pkeys[table_name]\<close>, and is appended to \<^verbatim>\<open>updates\<close>.
\<close>

fun b_table_loop ::
  "('v \<Rightarrow> 'v \<Rightarrow> bool) \<Rightarrow> (string, string) dict \<Rightarrow> string \<Rightarrow> 'v table \<Rightarrow> ('v \<times> 'v row) list \<Rightarrow>
     'v row list \<Rightarrow> 'v row list \<Rightarrow> error + ('v row list \<times> 'v row list)" where
  "b_table_loop ne pkeys table_name a_table [] inserts updates = Inr (inserts, updates)"
| "b_table_loop ne pkeys table_name a_table ((key, row) # items) inserts updates =
     (if \<not> contains a_table key
      then b_table_loop ne pkeys table_name a_table items (inserts @ [row]) updates
      else
        (case update_loop ne a_table key row [] of
           Inl e \<Rightarrow> Inl e
         | Inr update \<Rightarrow>
             if update \<noteq> [] then
               (case getitem pkeys table_name of
                  Inl e \<Rightarrow> Inl e
                | Inr pkey \<Rightarrow>
                    (case getitem row pkey of
                       Inl e \<Rightarrow> Inl e
                     | Inr v \<Rightarrow>
                         b_table_loop ne pkeys table_name a_table items inserts
                           (updates @ [setitem update pkey v])))
             else b_table_loop ne pkeys table_name a_table items inserts updates))"

text \<open>\<^verbatim>\<open>for key, row in a_table.items()\<close>: a key that \<^verbatim>\<open>b_table\<close> lacks is a delete.\<close>

fun a_table_loop :: "'v table \<Rightarrow> ('v \<times> 'v row) list \<Rightarrow> 'v row list \<Rightarrow> 'v row list" where
  "a_table_loop b_table [] deletes = deletes"
| "a_table_loop b_table ((key, row) # items) deletes =
     a_table_loop b_table items (if \<not> contains b_table key then deletes @ [row] else deletes)"

text \<open>
  The outer loop, \<^verbatim>\<open>for table_name, b_table in b.items()\<close>. A table with no insert,
  update or delete gets no entry. (The source first stores \<^verbatim>\<open>{}\<close> under the table name
  and overwrites it in the next statement; the model stores the final value.)
\<close>

fun b_loop ::
  "('v \<Rightarrow> 'v \<Rightarrow> bool) \<Rightarrow> (string, string) dict \<Rightarrow> 'v snapshot \<Rightarrow> bool \<Rightarrow> (string \<times> 'v table) list \<Rightarrow>
     (string, 'v changes) dict \<Rightarrow> error + (string, 'v changes) dict" where
  "b_loop ne pkeys a compact [] out = Inr out"
| "b_loop ne pkeys a compact ((table_name, b_table) # items) out =
     (case getitem a table_name of
        Inl e \<Rightarrow> Inl e
      | Inr a_table \<Rightarrow>
          (case b_table_loop ne pkeys table_name a_table b_table [] [] of
             Inl e \<Rightarrow> Inl e
           | Inr (inserts, updates) \<Rightarrow>
               (let deletes = a_table_loop b_table a_table [] in
                if inserts \<noteq> [] \<or> updates \<noteq> [] \<or> deletes \<noteq> [] then
                  b_loop ne pkeys a compact items
                    (setitem out table_name
                       (if compact
                        then Counts [length inserts, length updates, length deletes]
                        else Changes inserts updates deletes))
                else b_loop ne pkeys a compact items out)))"

text \<open>
  \<^verbatim>\<open>_diff\<close>: the primary keys are read first, then the table names of the two dumps are
  compared (\<^verbatim>\<open>assert sorted(a.keys()) == sorted(b.keys())\<close>), then the tables of
  \<^verbatim>\<open>b\<close> are walked.
\<close>

definition u_diff ::
  "('v \<Rightarrow> 'v \<Rightarrow> bool) \<Rightarrow> ('s, 'v) db \<Rightarrow> 's \<Rightarrow> 'v snapshot \<Rightarrow> 'v snapshot \<Rightarrow> bool \<Rightarrow> error + (string, 'v changes) dict" where
  "u_diff ne db s a b compact =
     (case u_get_primary_keys db s of
        Inl e \<Rightarrow> Inl e
      | Inr pkeys \<Rightarrow>
          if sort (keys a) \<noteq> sort (keys b) then Inl AssertionError
          else b_loop ne pkeys a compact b [])"


subsection \<open>Dumping the database\<close>

text \<open>
  \<^verbatim>\<open>dump\<close>: for every table name, the rows of \<^verbatim>\<open>SELECT * FROM table_name\<close>
  (\<^verbatim>\<open>None\<close> counts as no rows), keyed by the value of the primary-key column.
  \<^verbatim>\<open>pkeys[table_name]\<close> and \<^verbatim>\<open>row[pkey]\<close> can raise \<^verbatim>\<open>KeyError\<close>.
\<close>

fun mapped_loop :: "string \<Rightarrow> 'v row list \<Rightarrow> 'v table \<Rightarrow> error + 'v table" where
  "mapped_loop pkey [] mapped = Inr mapped"
| "mapped_loop pkey (row # rows) mapped =
     (case getitem row pkey of
        Inl e \<Rightarrow> Inl e
      | Inr key \<Rightarrow> mapped_loop pkey rows (setitem mapped key row))"

fun dump_loop ::
  "('s, 'v) db \<Rightarrow> 's \<Rightarrow> (string, string) dict \<Rightarrow> string list \<Rightarrow> 'v snapshot \<Rightarrow>
     error + 'v snapshot" where
  "dump_loop db s pkeys [] out = Inr out"
| "dump_loop db s pkeys (table_name # table_names) out =
     (case getitem pkeys table_name of
        Inl e \<Rightarrow> Inl e
      | Inr pkey \<Rightarrow>
          (let rows = (case fetchall_select db table_name s of None \<Rightarrow> [] | Some rows \<Rightarrow> rows)
           in case mapped_loop pkey rows [] of
                Inl e \<Rightarrow> Inl e
              | Inr mapped \<Rightarrow> dump_loop db s pkeys table_names (setitem out table_name mapped)))"

definition dump :: "('s, 'v) db \<Rightarrow> 's \<Rightarrow> error + 'v snapshot" where
  "dump db s =
     (case u_get_primary_keys db s of
        Inl e \<Rightarrow> Inl e
      | Inr pkeys \<Rightarrow> dump_loop db s pkeys (u_get_table_names db s) [])"

subsection \<open>The context object\<close>

text \<open>
  The attributes of a \<^verbatim>\<open>Context\<close> that the methods read and write: the state of the
  database behind \<^verbatim>\<open>self.db\<close>, and the dump \<^verbatim>\<open>self.a\<close>, which exists only after
  a load. A method returns its result (or the exception) together with the object as the
  method leaves it. The type \<open>'d\<close> is what \<^verbatim>\<open>self.a\<close> holds: the dump as a value, or
  (further below, where objects have an identity) a reference to it.
\<close>

record ('s, 'd) Context =
  self_db :: 's
  self_a :: "'d option"

subsection \<open>Loading data\<close>

text \<open>
  The items of \<^verbatim>\<open>data\<close>, by the type \<^verbatim>\<open>__call__\<close> dispatches on: a string (a
  table name), a \<^verbatim>\<open>dict\<close> from column name to value, a list or tuple of values.
\<close>

datatype 'v thing =
    Str string
  | Dict "(string, 'v) dict"
  | Seq "'v list"

text \<open>
  \<^verbatim>\<open>colname_re = re.compile("^[A-Za-z0-9_]+$")\<close>, and \<^verbatim>\<open>colname_re.match(colname)\<close>.
  In Python's \<^verbatim>\<open>re\<close>, without the \<^verbatim>\<open>MULTILINE\<close> flag, \<^verbatim>\<open>$\<close> matches at the end of
  the string and also just before a newline that ends the string.
\<close>

definition colname_re_pattern :: string where
  "colname_re_pattern = ''^[A-Za-z0-9_]+$''"

definition colname_char :: "char \<Rightarrow> bool" where
  "colname_char c =
     ((CHR ''A'' \<le> c \<and> c \<le> CHR ''Z'') \<or> (CHR ''a'' \<le> c \<and> c \<le> CHR ''z'') \<or>
      (CHR ''0'' \<le> c \<and> c \<le> CHR ''9'') \<or> c = CHR ''_'')"

definition colname_re_match :: "string \<Rightarrow> bool" where
  "colname_re_match colname =
     (let body = (if colname \<noteq> [] \<and> last colname = CHR 0x0A then butlast colname else colname)
      in body \<noteq> [] \<and> list_all colname_char body)"

text \<open>
  The loop over \<^verbatim>\<open>sorted(row.iteritems())\<close>: the first column name that does not match
  raises \<^verbatim>\<open>ValueError\<close>. The keys of a dictionary differ, so sorting the pairs is sorting
  by column name.
\<close>

fun colnames_loop ::
  "(string \<times> 'v) list \<Rightarrow> string list \<Rightarrow> 'v list \<Rightarrow> error + (string list \<times> 'v list)" where
  "colnames_loop [] colnames values = Inr (colnames, values)"
| "colnames_loop ((colname, value) # items) colnames values =
     (if \<not> colname_re_match colname
      then Inl (ValueError (''colname must match '' @ colname_re_pattern))
      else colnames_loop items (colnames @ [colname]) (values @ [value]))"

text \<open>
  \<^verbatim>\<open>"INSERT INTO %s%sVALUES (%s)" % (table_name, colnames, value_placeholders)\<close> with
  \<^verbatim>\<open>value_placeholders = ', '.join(['%s'] * n)\<close>.
\<close>

definition insert_sql :: "string \<Rightarrow> string \<Rightarrow> nat \<Rightarrow> string" where
  "insert_sql table_name colnames n =
     ''INSERT INTO '' @ table_name @ colnames @ ''VALUES ('' @
       join '', '' (replicate n ''%s'') @ '')''"

text \<open>
  The loop \<^verbatim>\<open>for thing in data\<close>. Its state is the current \<^verbatim>\<open>table_name\<close> and the
  database; when an item raises, the database is as the items before left it.
\<close>

fun call_loop ::
  "('s, 'v) db \<Rightarrow> string list \<Rightarrow> string \<Rightarrow> 'v thing list \<Rightarrow> 's \<Rightarrow> (error + string) \<times> 's" where
  "call_loop db known_tables table_name [] s = (Inr table_name, s)"
| "call_loop db known_tables table_name (Str name # data) s =
     (if name \<notin> set known_tables
      then (Inl (ValueError (''Unknown table: '' @ name)), s)
      else call_loop db known_tables name data s)"
| "call_loop db known_tables table_name (Dict row # data) s =
     (if table_name = [] then (Inl (ValueError ''What table am I INSERTing into?''), s)
      else
        (case colnames_loop (sort_key fst row) [] [] of
           Inl e \<Rightarrow> (Inl e, s)
         | Inr (colnames, values) \<Rightarrow>
             call_loop db known_tables table_name data
               (execute db
                  (insert_sql table_name ('' ('' @ join '', '' colnames @ '') '') (length row))
                  values s)))"
| "call_loop db known_tables table_name (Seq vals # data) s =
     (if table_name = [] then (Inl (ValueError ''What table am I INSERTing into?''), s)
      else
        call_loop db known_tables table_name data
          (execute db (insert_sql table_name '' '' (length vals)) vals s))"

text \<open>\<^verbatim>\<open>__call__\<close>: load the data, then keep a dump of the database in \<^verbatim>\<open>self.a\<close>.\<close>

definition call ::
  "('s, 'v) db \<Rightarrow> ('s, 'v snapshot) Context \<Rightarrow> 'v thing list \<Rightarrow>
     (error + unit) \<times> ('s, 'v snapshot) Context" where
  "call db self data =
     (let known_tables = u_get_table_names db (self_db self)
      in case call_loop db known_tables [] data (self_db self) of
           (Inl e, s) \<Rightarrow> (Inl e, self\<lparr>self_db := s\<rparr>)
         | (Inr table_name, s) \<Rightarrow>
             (case dump db s of
                Inl e \<Rightarrow> (Inl e, self\<lparr>self_db := s\<rparr>)
              | Inr d \<Rightarrow> (Inr (), self\<lparr>self_db := s, self_a := Some d\<rparr>)))"

subsection \<open>Comparing with the state at load\<close>

text \<open>
  \<^verbatim>\<open>copy.deepcopy\<close> of a dump returns an equal value that shares no object with its
  argument; values here carry no object identity, so the copy is the value itself.
\<close>

definition deepcopy :: "'v snapshot \<Rightarrow> 'v snapshot" where
  "deepcopy d = d"

text \<open>
  \<^verbatim>\<open>diff\<close>: before any load \<^verbatim>\<open>self.a\<close> does not exist and reading it raises
  \<^verbatim>\<open>AttributeError\<close>. The method assigns no attribute.
\<close>

definition diff ::
  "('v \<Rightarrow> 'v \<Rightarrow> bool) \<Rightarrow> ('s, 'v) db \<Rightarrow> ('s, 'v snapshot) Context \<Rightarrow> bool \<Rightarrow>
     (error + (string, 'v changes) dict) \<times> ('s, 'v snapshot) Context" where
  "diff ne db self compact =
     (case self_a self of
        None \<Rightarrow> (Inl AttributeError, self)
      | Some a0 \<Rightarrow>
          (let a = deepcopy a0
           in case dump db (self_db self) of
                Inl e \<Rightarrow> (Inl e, self)
              | Inr b \<Rightarrow> (u_diff ne db (self_db self) a b compact, self)))"

subsection \<open>Deleting all data\<close>

text \<open>
  \<^verbatim>\<open>_delete_data\<close>. \<^verbatim>\<open>os.environ\<close> is a map from names to strings; the subscript
  raises \<^verbatim>\<open>KeyError\<close> when the variable is not set. The statements are executed without
  parameters.
\<close>

fun truncate_loop :: "('s, 'v) db \<Rightarrow> string list \<Rightarrow> 's \<Rightarrow> 's" where
  "truncate_loop db [] s = s"
| "truncate_loop db (table_name # table_names) s =
     truncate_loop db table_names (execute db (''TRUNCATE TABLE '' @ table_name @ '' CASCADE'') [] s)"

definition u_delete_data ::
  "('s, 'v) db \<Rightarrow> (string \<rightharpoonup> string) \<Rightarrow> ('s, 'd) Context \<Rightarrow>
     (error + unit) \<times> ('s, 'd) Context" where
  "u_delete_data db environ self =
     (case environ ''YES_PLEASE_DELETE_ALL_MY_DATA_VERY_OFTEN'' of
        None \<Rightarrow> (Inl KeyError, self)
      | Some safety_belt \<Rightarrow>
          if safety_belt \<noteq> ''Pretty please, with sugar on top.''
          then (Inl (Exception ''Heck.''), self)
          else (Inr (),
                self\<lparr>self_db := truncate_loop db (u_get_table_names db (self_db self)) (self_db self)\<rparr>))"


subsection \<open>Objects and references\<close>

text \<open>
  The dump that \<^verbatim>\<open>self.a\<close> holds and the dumps that \<^verbatim>\<open>diff\<close> hands to
  \<^verbatim>\<open>_diff\<close> are Python objects: a dictionary of table dictionaries of rows. Where it
  matters which object a reference points to, the objects live in a heap: a list of objects
  in which an address is an index and an allocation appends. Column values and names are
  immutable and stay values. A read of an address that holds no object of the expected kind
  is \<^verbatim>\<open>TypeError\<close>.
\<close>

type_synonym addr = nat

datatype 'v pyobj =
    RowObj "'v row"
  | TableObj "('v, addr) dict"
  | DumpObj "(string, addr) dict"

type_synonym 'v heap = "'v pyobj list"

definition get_row :: "'v heap \<Rightarrow> addr \<Rightarrow> error + 'v row" where
  "get_row h r =
     (if r < length h then (case h ! r of RowObj cols \<Rightarrow> Inr cols | _ \<Rightarrow> Inl TypeError)
      else Inl TypeError)"

definition get_table :: "'v heap \<Rightarrow> addr \<Rightarrow> error + ('v, addr) dict" where
  "get_table h r =
     (if r < length h then (case h ! r of TableObj rows \<Rightarrow> Inr rows | _ \<Rightarrow> Inl TypeError)
      else Inl TypeError)"

definition get_dump :: "'v heap \<Rightarrow> addr \<Rightarrow> error + (string, addr) dict" where
  "get_dump h r =
     (if r < length h then (case h ! r of DumpObj tables \<Rightarrow> Inr tables | _ \<Rightarrow> Inl TypeError)
      else Inl TypeError)"

definition alloc :: "'v pyobj \<Rightarrow> 'v heap \<Rightarrow> addr \<times> 'v heap" where
  "alloc obj h = (length h, h @ [obj])"

text \<open>
  The dictionaries that \<^verbatim>\<open>dump\<close> builds and returns are new objects, and so are the
  rows that \<^verbatim>\<open>fetchall\<close> delivers: a dump enters the heap by allocating a row object for
  every row, a table object for every table and the dump object itself.
\<close>

fun store_rows :: "('v \<times> 'v row) list \<Rightarrow> 'v heap \<Rightarrow> ('v \<times> addr) list \<times> 'v heap" where
  "store_rows [] h = ([], h)"
| "store_rows ((key, row) # items) h =
     (case alloc (RowObj row) h of
        (r, h1) \<Rightarrow> (case store_rows items h1 of (rs, h2) \<Rightarrow> ((key, r) # rs, h2)))"

fun store_tables ::
  "(string \<times> 'v table) list \<Rightarrow> 'v heap \<Rightarrow> (string \<times> addr) list \<times> 'v heap" where
  "store_tables [] h = ([], h)"
| "store_tables ((table_name, table) # items) h =
     (case store_rows table h of
        (rows, h1) \<Rightarrow>
          (case alloc (TableObj rows) h1 of
             (t, h2) \<Rightarrow>
               (case store_tables items h2 of (ts, h3) \<Rightarrow> ((table_name, t) # ts, h3))))"

definition store_dump :: "'v snapshot \<Rightarrow> 'v heap \<Rightarrow> addr \<times> 'v heap" where
  "store_dump d h = (case store_tables d h of (ts, h1) \<Rightarrow> alloc (DumpObj ts) h1)"

text \<open>
  The value of the dump that an address refers to.
\<close>

fun read_rows :: "'v heap \<Rightarrow> ('v \<times> addr) list \<Rightarrow> error + ('v \<times> 'v row) list" where
  "read_rows h [] = Inr []"
| "read_rows h ((key, r) # items) =
     (case get_row h r of
        Inl e \<Rightarrow> Inl e
      | Inr row \<Rightarrow>
          (case read_rows h items of
             Inl e \<Rightarrow> Inl e
           | Inr rows \<Rightarrow> Inr ((key, row) # rows)))"

definition read_table :: "'v heap \<Rightarrow> addr \<Rightarrow> error + 'v table" where
  "read_table h r = (case get_table h r of Inl e \<Rightarrow> Inl e | Inr items \<Rightarrow> read_rows h items)"

fun read_tables :: "'v heap \<Rightarrow> (string \<times> addr) list \<Rightarrow> error + 'v snapshot" where
  "read_tables h [] = Inr []"
| "read_tables h ((table_name, r) # items) =
     (case read_table h r of
        Inl e \<Rightarrow> Inl e
      | Inr table \<Rightarrow>
          (case read_tables h items of
             Inl e \<Rightarrow> Inl e
           | Inr tables \<Rightarrow> Inr ((table_name, table) # tables)))"

definition read_dump :: "'v heap \<Rightarrow> addr \<Rightarrow> error + 'v snapshot" where
  "read_dump h r = (case get_dump h r of Inl e \<Rightarrow> Inl e | Inr items \<Rightarrow> read_tables h items)"

text \<open>
  \<^verbatim>\<open>copy.deepcopy\<close> of a dump object: new objects with the same contents. (Python's
  copy keeps an object that occurs twice in the original shared in the copy; here it is
  copied twice. \<^verbatim>\<open>_diff\<close> only reads the copy, and cannot tell the two apart.)
\<close>

definition h_deepcopy :: "'v heap \<Rightarrow> addr \<Rightarrow> (error + addr) \<times> 'v heap" where
  "h_deepcopy h r =
     (case read_dump h r of
        Inl e \<Rightarrow> (Inl e, h)
      | Inr d \<Rightarrow> (case store_dump d h of (r', h') \<Rightarrow> (Inr r', h')))"

text \<open>
  \<^verbatim>\<open>_diff\<close> on references. The lists \<^verbatim>\<open>inserts\<close> and \<^verbatim>\<open>deletes\<close> hold the row
  objects of the two dumps themselves, so they are lists of addresses; an \<^verbatim>\<open>update\<close> is
  a dictionary that \<^verbatim>\<open>_diff\<close> creates and fills, and is kept as a value, as are the
  lists and the result dictionary, which are new objects as well. No statement of the source
  assigns into an object that \<^verbatim>\<open>_diff\<close> did not create, so the loops read the heap and
  return no new one.
\<close>

datatype 'v hchanges =
    HCounts "nat list"
  | HChanges "addr list" "'v row list" "addr list"

fun h_update_loop ::
  "('v \<Rightarrow> 'v \<Rightarrow> bool) \<Rightarrow> 'v heap \<Rightarrow> addr \<Rightarrow> 'v \<Rightarrow> (string \<times> 'v) list \<Rightarrow> 'v row \<Rightarrow> error + 'v row" where
  "h_update_loop ne h a_table key [] update = Inr update"
| "h_update_loop ne h a_table key ((colname, value) # items) update =
     (case get_table h a_table of
        Inl e \<Rightarrow> Inl e
      | Inr a_rows \<Rightarrow>
          (case getitem a_rows key of
             Inl e \<Rightarrow> Inl e
           | Inr a_row \<Rightarrow>
               (case get_row h a_row of
                  Inl e \<Rightarrow> Inl e
                | Inr a_cols \<Rightarrow>
                    (case getitem a_cols colname of
                       Inl e \<Rightarrow> Inl e
                     | Inr a_value \<Rightarrow>
                         h_update_loop ne h a_table key items
                           (if ne a_value value then setitem update colname value
                            else update)))))"

fun h_b_table_loop ::
  "('v \<Rightarrow> 'v \<Rightarrow> bool) \<Rightarrow> 'v heap \<Rightarrow> (string, string) dict \<Rightarrow> string \<Rightarrow> addr \<Rightarrow> ('v \<times> addr) list \<Rightarrow>
     addr list \<Rightarrow> 'v row list \<Rightarrow> error + (addr list \<times> 'v row list)" where
  "h_b_table_loop ne h pkeys table_name a_table [] inserts updates = Inr (inserts, updates)"
| "h_b_table_loop ne h pkeys table_name a_table ((key, row) # items) inserts updates =
     (case get_table h a_table of
        Inl e \<Rightarrow> Inl e
      | Inr a_rows \<Rightarrow>
          if \<not> contains a_rows key
          then h_b_table_loop ne h pkeys table_name a_table items (inserts @ [row]) updates
          else
            (case get_row h row of
               Inl e \<Rightarrow> Inl e
             | Inr cols \<Rightarrow>
                 (case h_update_loop ne h a_table key cols [] of
                    Inl e \<Rightarrow> Inl e
                  | Inr update \<Rightarrow>
                      if update \<noteq> [] then
                        (case getitem pkeys table_name of
                           Inl e \<Rightarrow> Inl e
                         | Inr pkey \<Rightarrow>
                             (case getitem cols pkey of
                                Inl e \<Rightarrow> Inl e
                              | Inr v \<Rightarrow>
                                  h_b_table_loop ne h pkeys table_name a_table items inserts
                                    (updates @ [setitem update pkey v])))
                      else h_b_table_loop ne h pkeys table_name a_table items inserts updates)))"

fun h_a_table_loop ::
  "'v heap \<Rightarrow> addr \<Rightarrow> ('v \<times> addr) list \<Rightarrow> addr list \<Rightarrow> error + addr list" where
  "h_a_table_loop h b_table [] deletes = Inr deletes"
| "h_a_table_loop h b_table ((key, row) # items) deletes =
     (case get_table h b_table of
        Inl e \<Rightarrow> Inl e
      | Inr b_rows \<Rightarrow>
          h_a_table_loop h b_table items
            (if \<not> contains b_rows key then deletes @ [row] else deletes))"

fun h_b_loop ::
  "('v \<Rightarrow> 'v \<Rightarrow> bool) \<Rightarrow> 'v heap \<Rightarrow> (string, string) dict \<Rightarrow> addr \<Rightarrow> bool \<Rightarrow> (string \<times> addr) list \<Rightarrow>
     (string, 'v hchanges) dict \<Rightarrow> error + (string, 'v hchanges) dict" where
  "h_b_loop ne h pkeys a compact [] out = Inr out"
| "h_b_loop ne h pkeys a compact ((table_name, b_table) # items) out =
     (case get_dump h a of
        Inl e \<Rightarrow> Inl e
      | Inr a_tables \<Rightarrow>
          (case getitem a_tables table_name of
             Inl e \<Rightarrow> Inl e
           | Inr a_table \<Rightarrow>
               (case get_table h b_table of
                  Inl e \<Rightarrow> Inl e
                | Inr b_rows \<Rightarrow>
                    (case h_b_table_loop ne h pkeys table_name a_table b_rows [] [] of
                       Inl e \<Rightarrow> Inl e
                     | Inr (inserts, updates) \<Rightarrow>
                         (case get_table h a_table of
                            Inl e \<Rightarrow> Inl e
                          | Inr a_rows \<Rightarrow>
                              (case h_a_table_loop h b_table a_rows [] of
                                 Inl e \<Rightarrow> Inl e
                               | Inr deletes \<Rightarrow>
                                   if inserts \<noteq> [] \<or> updates \<noteq> [] \<or> deletes \<noteq> [] then
                                     h_b_loop ne h pkeys a compact items
                                       (setitem out table_name
                                          (if compact
                                           then HCounts [length inserts, length updates,
                                                  length deletes]
                                           else HChanges inserts updates deletes))
                                   else h_b_loop ne h pkeys a compact items out))))))"

definition h_u_diff ::
  "('v \<Rightarrow> 'v \<Rightarrow> bool) \<Rightarrow> ('s, 'v) db \<Rightarrow> 's \<Rightarrow> 'v heap \<Rightarrow> addr \<Rightarrow> addr \<Rightarrow> bool \<Rightarrow>
     error + (string, 'v hchanges) dict" where
  "h_u_diff ne db s h a b compact =
     (case u_get_primary_keys db s of
        Inl e \<Rightarrow> Inl e
      | Inr pkeys \<Rightarrow>
          (case get_dump h a of
             Inl e \<Rightarrow> Inl e
           | Inr a_tables \<Rightarrow>
               (case get_dump h b of
                  Inl e \<Rightarrow> Inl e
                | Inr b_tables \<Rightarrow>
                    if sort (keys a_tables) \<noteq> sort (keys b_tables) then Inl AssertionError
                    else h_b_loop ne h pkeys a compact b_tables [])))"

text \<open>
  \<^verbatim>\<open>diff\<close> and \<^verbatim>\<open>__call__\<close> with \<^verbatim>\<open>self.a\<close> a reference. The heap after the
  call is part of the result.
\<close>

definition h_diff ::
  "('v \<Rightarrow> 'v \<Rightarrow> bool) \<Rightarrow> ('s, 'v) db \<Rightarrow> ('s, addr) Context \<Rightarrow> 'v heap \<Rightarrow> bool \<Rightarrow>
     (error + (string, 'v hchanges) dict) \<times> ('s, addr) Context \<times> 'v heap" where
  "h_diff ne db self h compact =
     (case self_a self of
        None \<Rightarrow> (Inl AttributeError, self, h)
      | Some a0 \<Rightarrow>
          (case h_deepcopy h a0 of
             (Inl e, h1) \<Rightarrow> (Inl e, self, h1)
           | (Inr a, h1) \<Rightarrow>
               (case dump db (self_db self) of
                  Inl e \<Rightarrow> (Inl e, self, h1)
                | Inr d \<Rightarrow>
                    (case store_dump d h1 of
                       (b, h2) \<Rightarrow> (h_u_diff ne db (self_db self) h2 a b compact, self, h2)))))"

definition h_call ::
  "('s, 'v) db \<Rightarrow> ('s, addr) Context \<Rightarrow> 'v heap \<Rightarrow> 'v thing list \<Rightarrow>
     (error + unit) \<times> ('s, addr) Context \<times> 'v heap" where
  "h_call db self h data =
     (case call_loop db (u_get_table_names db (self_db self)) [] data (self_db self) of
        (Inl e, s) \<Rightarrow> (Inl e, self\<lparr>self_db := s\<rparr>, h)
      | (Inr table_name, s) \<Rightarrow>
          (case dump db s of
             Inl e \<Rightarrow> (Inl e, self\<lparr>self_db := s\<rparr>, h)
           | Inr d \<Rightarrow>
               (case store_dump d h of
                  (r, h') \<Rightarrow> (Inr (), self\<lparr>self_db := s, self_a := Some r\<rparr>, h'))))"


subsection \<open>Vocabulary of the properties\<close>

text \<open>
  The definitions of this subsection are not part of the source; the theorems below use them
  to say what the methods compute.

  A dump is well formed when it and every table and row in it is a dictionary, that is, has
  no key twice.
\<close>

definition is_snapshot :: "'v snapshot \<Rightarrow> bool" where
  "is_snapshot d =
     (is_dict d \<and>
      list_all (\<lambda>(table_name, table).
        is_dict table \<and> list_all (\<lambda>(key, row). is_dict row) table) d)"

text \<open>
  The columns of \<open>row\<close> whose value differs (by \<open>ne\<close>) from the value \<open>a_row\<close> gives them,
  or that \<open>a_row\<close> lacks, with the values \<open>row\<close> gives them, in the order of \<open>row\<close>.
\<close>

definition changed_columns :: "('v \<Rightarrow> 'v \<Rightarrow> bool) \<Rightarrow> 'v row \<Rightarrow> 'v row \<Rightarrow> 'v row" where
  "changed_columns ne a_row row =
     filter (\<lambda>(colname, value).
       (case map_of a_row colname of None \<Rightarrow> True | Some a_value \<Rightarrow> ne a_value value)) row"

text \<open>A row of the second dump whose key the first dump has, with some column changed.\<close>

definition row_changed :: "('v \<Rightarrow> 'v \<Rightarrow> bool) \<Rightarrow> 'v table \<Rightarrow> 'v \<times> 'v row \<Rightarrow> bool" where
  "row_changed ne a_table = (\<lambda>(key, row).
     (case map_of a_table key of
        None \<Rightarrow> False
      | Some a_row \<Rightarrow> changed_columns ne a_row row \<noteq> []))"

text \<open>
  The update record of such a row: its changed columns, and the primary-key column of the
  table with the row's value.
\<close>

definition update_of ::
  "('v \<Rightarrow> 'v \<Rightarrow> bool) \<Rightarrow> (string, string) dict \<Rightarrow> string \<Rightarrow> 'v table \<Rightarrow> 'v \<times> 'v row \<Rightarrow> 'v row option" where
  "update_of ne pkeys table_name a_table = (\<lambda>(key, row).
     (case map_of a_table key of
        None \<Rightarrow> None
      | Some a_row \<Rightarrow>
          (case map_of pkeys table_name of
             None \<Rightarrow> None
           | Some pkey \<Rightarrow>
               (case map_of row pkey of
                  None \<Rightarrow> None
                | Some v \<Rightarrow> Some (setitem (changed_columns ne a_row row) pkey v)))))"

text \<open>The value stored for a table, by the flag \<^verbatim>\<open>compact\<close>.\<close>

definition entry :: "bool \<Rightarrow> 'v row list \<Rightarrow> 'v row list \<Rightarrow> 'v row list \<Rightarrow> 'v changes" where
  "entry compact ins upd del =
     (if compact then Counts [length ins, length upd, length del] else Changes ins upd del)"

text \<open>The compact form of an entry, and the entries that are not compact.\<close>

fun counts_of :: "'v changes \<Rightarrow> 'v changes" where
  "counts_of (Changes ins upd del) = Counts [length ins, length upd, length del]"
| "counts_of (Counts ns) = Counts ns"

fun is_Changes :: "'v changes \<Rightarrow> bool" where
  "is_Changes (Changes ins upd del) = True"
| "is_Changes (Counts ns) = False"

subsection \<open>A database for the examples\<close>

text \<open>
  A handle whose catalogue and table contents are fixed and whose state is the list of the
  statements executed so far, each with its parameters.
\<close>

definition recording_db ::
  "string list option \<Rightarrow> pkey_row list option \<Rightarrow> (string \<Rightarrow> 'v row list option) \<Rightarrow>
     ((string \<times> 'v list) list, 'v) db" where
  "recording_db tables indexes contents =
     \<lparr> execute = (\<lambda>sql vals s. s @ [(sql, vals)]),
       fetchall_pg_tables = (\<lambda>s. tables),
       fetchall_pg_indexes = (\<lambda>s. indexes),
       fetchall_select = (\<lambda>table_name s. contents table_name) \<rparr>"

text \<open>Python's \<^verbatim>\<open>!=\<close> on strings.\<close>

definition str_ne :: "string \<Rightarrow> string \<Rightarrow> bool" where
  "str_ne x y = (x \<noteq> y)"

definition widgets_index :: pkey_row where
  "widgets_index =
     \<lparr> tablename = ''widgets'',
       indexdef = ''CREATE UNIQUE INDEX widgets_pkey ON widgets USING btree (id)'' \<rparr>"

definition widget :: "string \<Rightarrow> string \<Rightarrow> string row" where
  "widget i n = [(''id'', i), (''name'', n)]"

definition widgets_db :: "((string \<times> string list) list, string) db" where
  "widgets_db =
     recording_db (Some [''widgets'']) (Some [widgets_index])
       (\<lambda>t. if t = ''widgets'' then Some [widget ''1'' ''A''] else None)"

definition widgets_a :: "string snapshot" where
  "widgets_a =
     [(''widgets'',
        [(''1'', widget ''1'' ''A''), (''2'', widget ''2'' ''B''), (''3'', widget ''3'' ''C'')])]"

definition widgets_b :: "string snapshot" where
  "widgets_b =
     [(''widgets'',
        [(''1'', widget ''1'' ''A''), (''2'', widget ''2'' ''Z''), (''4'', widget ''4'' ''D'')])]"

definition widgets_narrow :: "string snapshot" where
  "widgets_narrow = [(''widgets'', [(''1'', [(''id'', ''1'')])])]"

definition widgets_wide :: "string snapshot" where
  "widgets_wide = [(''widgets'', [(''1'', widget ''1'' ''A'')])]"

text \<open>
  Numeric column values: a number or NaN, with Python's \<^verbatim>\<open>!=\<close> on them, for which
  \<^verbatim>\<open>float('nan') != float('nan')\<close> holds, also when both sides are the same object.
  \<open>priced\<close> is a dump of one table with one row whose \<^verbatim>\<open>price\<close> is NaN.
\<close>

datatype number = Number int | NaN

fun number_ne :: "number \<Rightarrow> number \<Rightarrow> bool" where
  "number_ne (Number x) (Number y) = (x \<noteq> y)"
| "number_ne NaN y = True"
| "number_ne x NaN = True"

definition priced_db :: "((string \<times> number list) list, number) db" where
  "priced_db = recording_db (Some [''widgets'']) (Some [widgets_index]) (\<lambda>t. None)"

definition priced :: "number snapshot" where
  "priced = [(''widgets'', [(Number 1, [(''id'', Number 1), (''price'', NaN)])])]"

text \<open>
  The text of an index definition after its first \<^verbatim>\<open>(\<close>, up to the next \<^verbatim>\<open>)\<close> or
  \<^verbatim>\<open>(\<close> or the end.
\<close>

definition between_parens :: "string \<Rightarrow> string" where
  "between_parens d =
     takeWhile (\<lambda>c. c \<noteq> CHR '')'')
       (takeWhile (\<lambda>c. c \<noteq> CHR ''('') (tl (dropWhile (\<lambda>c. c \<noteq> CHR ''('') d)))"

text \<open>The index of a table with a primary key of two columns.\<close>

definition tips_index :: pkey_row where
  "tips_index =
     \<lparr> tablename = ''tips'',
       indexdef = ''CREATE UNIQUE INDEX tips_pkey ON tips USING btree (tipper, tippee)'' \<rparr>"

text \<open>A context before any load, on a database that has seen one statement.\<close>

definition fresh :: "((string \<times> string list) list, string snapshot) Context" where
  "fresh = \<lparr> self_db = [(''INSERT INTO widgets VALUES (%s, %s)'', [''1'', ''A''])], self_a = None \<rparr>"

text \<open>
  The value of a result of \<^verbatim>\<open>_diff\<close> on references, the addresses of the rows it
  refers to, and the addresses of the rows of a dump.
\<close>

fun read_list :: "'v heap \<Rightarrow> addr list \<Rightarrow> error + 'v row list" where
  "read_list h [] = Inr []"
| "read_list h (r # rs) =
     (case get_row h r of
        Inl e \<Rightarrow> Inl e
      | Inr row \<Rightarrow> (case read_list h rs of Inl e \<Rightarrow> Inl e | Inr rows \<Rightarrow> Inr (row # rows)))"

fun read_changes :: "'v heap \<Rightarrow> 'v hchanges \<Rightarrow> error + 'v changes" where
  "read_changes h (HCounts ns) = Inr (Counts ns)"
| "read_changes h (HChanges ins upd del) =
     (case read_list h ins of
        Inl e \<Rightarrow> Inl e
      | Inr ins' \<Rightarrow>
          (case read_list h del of
             Inl e \<Rightarrow> Inl e
           | Inr del' \<Rightarrow> Inr (Changes ins' upd del')))"

fun read_out :: "'v heap \<Rightarrow> (string, 'v hchanges) dict \<Rightarrow> error + (string, 'v changes) dict" where
  "read_out h [] = Inr []"
| "read_out h ((table_name, c) # out) =
     (case read_changes h c of
        Inl e \<Rightarrow> Inl e
      | Inr c' \<Rightarrow>
          (case read_out h out of Inl e \<Rightarrow> Inl e | Inr out' \<Rightarrow> Inr ((table_name, c') # out')))"

definition read_result ::
  "'v heap \<Rightarrow> error + (string, 'v hchanges) dict \<Rightarrow> error + (string, 'v changes) dict" where
  "read_result h res = (case res of Inl e \<Rightarrow> Inl e | Inr out \<Rightarrow> read_out h out)"

fun refs_of :: "'v hchanges \<Rightarrow> addr list" where
  "refs_of (HCounts ns) = []"
| "refs_of (HChanges ins upd del) = ins @ del"

definition out_refs :: "(string, 'v hchanges) dict \<Rightarrow> addr list" where
  "out_refs out = concat (map (\<lambda>(table_name, c). refs_of c) out)"

fun table_refs :: "'v heap \<Rightarrow> (string \<times> addr) list \<Rightarrow> addr list" where
  "table_refs h [] = []"
| "table_refs h ((table_name, t) # ts) =
     (case get_table h t of Inl e \<Rightarrow> [] | Inr rows \<Rightarrow> map snd rows) @ table_refs h ts"

definition row_refs :: "'v heap \<Rightarrow> addr \<Rightarrow> addr list" where
  "row_refs h r = (case get_dump h r of Inl e \<Rightarrow> [] | Inr ts \<Rightarrow> table_refs h ts)"

text \<open>
  The context and the heap after loading one widget into the example database, starting
  from an empty heap.
\<close>

definition loaded :: "((string \<times> string list) list, addr) Context" where
  "loaded =
     \<lparr> self_db = [(''INSERT INTO widgets (id, name) VALUES (%s, %s)'', [''1'', ''A''])],
       self_a = Some 2 \<rparr>"

definition loaded_heap :: "string heap" where
  "loaded_heap = [RowObj (widget ''1'' ''A''), TableObj [(''1'', 0)], DumpObj [(''widgets'', 1)]]"


section \<open>Properties\<close>

subsection \<open>The loops of \<^verbatim>\<open>_diff\<close>\<close>


lemma a_table_loop_eq:
  "a_table_loop b_table items deletes =
     deletes @ map snd (filter (\<lambda>(key, row). \<not> contains b_table key) items)"
  by (induction items arbitrary: deletes) auto

lemma update_loop_error:
  "update_loop ne a_table key items update = Inl e \<Longrightarrow> e = KeyError"
  by (induction ne a_table key items update rule: update_loop.induct)
     (auto simp: getitem_def split: option.splits sum.splits if_splits)

lemma setitem_fresh: "k \<notin> fst ` set d \<Longrightarrow> setitem d k v = d @ [(k, v)]"
  by (induction d) (auto simp: setitem_def)

lemma update_loop_ok:
  assumes "map_of a_table key = Some a_row"
    and "distinct (map fst items)"
    and "fst ` set items \<inter> fst ` set update = {}"
    and "\<forall>c\<in>fst ` set items. map_of a_row c \<noteq> None"
  shows "update_loop ne a_table key items update = Inr (update @ changed_columns ne a_row items)"
  using assms
proof (induction items arbitrary: update)
  case Nil
  then show ?case by (simp add: changed_columns_def)
next
  case (Cons p items)
  obtain c v where p: "p = (c, v)" by (cases p)
  from Cons.prems(4) p obtain av where av: "map_of a_row c = Some av" by auto
  show ?case
  proof (cases "ne av v")
    case False
    have "update_loop ne a_table key items update = Inr (update @ changed_columns ne a_row items)"
      using Cons.prems p by (intro Cons.IH) auto
    then show ?thesis using p av False Cons.prems(1)
      by (simp add: getitem_def changed_columns_def)
  next
    case True
    have fresh: "c \<notin> fst ` set update" using Cons.prems(3) p by auto
    have "update_loop ne a_table key items (update @ [(c, v)]) =
            Inr ((update @ [(c, v)]) @ changed_columns ne a_row items)"
      using Cons.prems p by (intro Cons.IH) auto
    then show ?thesis using p av True Cons.prems(1) fresh
      by (simp add: getitem_def changed_columns_def setitem_fresh)
  qed
qed

lemma update_loop_missing:
  assumes "map_of a_table key = Some a_row"
    and "\<exists>c\<in>fst ` set items. map_of a_row c = None"
  shows "update_loop ne a_table key items update = Inl KeyError"
  using assms
proof (induction items arbitrary: update)
  case Nil
  then show ?case by simp
next
  case (Cons p items)
  obtain c v where p: "p = (c, v)" by (cases p)
  show ?case
  proof (cases "map_of a_row c")
    case None
    then show ?thesis using p Cons.prems(1) by (simp add: getitem_def)
  next
    case (Some av)
    with Cons.prems p have "\<exists>c\<in>fst ` set items. map_of a_row c = None" by auto
    from Cons.IH[OF Cons.prems(1) this] show ?thesis
      using p Some Cons.prems(1) by (simp add: getitem_def)
  qed
qed



lemma b_table_loop_error:
  "b_table_loop ne pkeys t a_table items ins upd = Inl e \<Longrightarrow> e = KeyError"
proof (induction ne pkeys t a_table items ins upd rule: b_table_loop.induct)
  case (1 ne pkeys table_name a_table inserts updates)
  then show ?case by simp
next
  case (2 ne pkeys table_name a_table key row items inserts updates)
  then show ?case
    by (auto simp: getitem_def split: if_splits sum.splits option.splits dest: update_loop_error)
qed

lemma update_loop_Inr:
  assumes "update_loop ne a_table key row [] = Inr update"
    and "map_of a_table key = Some a_row" and "distinct (map fst row)"
  shows "update = changed_columns ne a_row row \<and> (\<forall>c\<in>fst ` set row. map_of a_row c \<noteq> None)"
proof (cases "\<forall>c\<in>fst ` set row. map_of a_row c \<noteq> None")
  case True
  with update_loop_ok[OF assms(2,3), where update = "[]" and ne = ne] assms(1) show ?thesis by simp
next
  case False
  with update_loop_missing[OF assms(2), where items = row and update = "[]" and ne = ne] assms(1) show ?thesis by auto
qed

lemma b_table_loop_ok:
  assumes "b_table_loop ne pkeys t a_table items ins upd = Inr (ins', upd')"
    and "\<forall>(key, row)\<in>set items. distinct (map fst row)"
  shows "ins' = ins @ map snd (filter (\<lambda>(key, row). \<not> contains a_table key) items) \<and>
         (\<exists>new. upd' = upd @ new \<and>
            map Some new = map (update_of ne pkeys t a_table) (filter (row_changed ne a_table) items)) \<and>
         (\<forall>(key, row)\<in>set items. \<forall>a_row. map_of a_table key = Some a_row \<longrightarrow>
            (\<forall>c\<in>fst ` set row. map_of a_row c \<noteq> None))"
  using assms
proof (induction items arbitrary: ins upd)
  case Nil
  then show ?case by simp
next
  case (Cons p items)
  obtain key row where p: "p = (key, row)" by (cases p)
  have drow: "distinct (map fst row)" and ditems: "\<forall>(key, row)\<in>set items. distinct (map fst row)"
    using Cons.prems(2) p by auto
  show ?case
  proof (cases "map_of a_table key")
    case None
    then have run: "b_table_loop ne pkeys t a_table items (ins @ [row]) upd = Inr (ins', upd')"
      using Cons.prems(1) p by (simp add: contains_def)
    from Cons.IH[OF run ditems] None p show ?thesis
      by (simp add: contains_def row_changed_def)
  next
    case (Some a_row)
    then obtain update where ul: "update_loop ne a_table key row [] = Inr update"
      using Cons.prems(1) p by (auto simp: contains_def split: sum.splits)
    from update_loop_Inr[OF ul Some drow]
    have upd_eq: "update = changed_columns ne a_row row"
      and cols: "\<forall>c\<in>fst ` set row. map_of a_row c \<noteq> None" by auto
    show ?thesis
    proof (cases "update = []")
      case True
      then have run: "b_table_loop ne pkeys t a_table items ins upd = Inr (ins', upd')"
        using Cons.prems(1) p Some ul by (simp add: contains_def)
      from Cons.IH[OF run ditems] Some p True upd_eq cols show ?thesis
        by (simp add: contains_def row_changed_def)
    next
      case False
      then obtain pkey v where pk: "map_of pkeys t = Some pkey" and v: "map_of row pkey = Some v"
        and run: "b_table_loop ne pkeys t a_table items ins (upd @ [setitem update pkey v]) = Inr (ins', upd')"
        using Cons.prems(1) p Some ul
        by (auto simp: contains_def getitem_def split: sum.splits option.splits)
      from Cons.IH[OF run ditems] obtain new where
        i: "ins' = ins @ map snd (filter (\<lambda>(key, row). \<not> contains a_table key) items)"
        and n: "upd' = (upd @ [setitem update pkey v]) @ new"
        and m: "map Some new = map (update_of ne pkeys t a_table) (filter (row_changed ne a_table) items)"
        and c: "\<forall>(key, row)\<in>set items. \<forall>a_row. map_of a_table key = Some a_row \<longrightarrow>
            (\<forall>c\<in>fst ` set row. map_of a_row c \<noteq> None)"
        by blast
      have "map Some (setitem update pkey v # new) =
              map (update_of ne pkeys t a_table) (filter (row_changed ne a_table) (p # items))"
        using m p Some False upd_eq pk v by (simp add: row_changed_def update_of_def)
      moreover have "upd' = upd @ (setitem update pkey v # new)" using n by simp
      ultimately show ?thesis using i c cols p Some
        by (auto simp: contains_def simp del: map_eq_conv list.map)
    qed
  qed
qed



lemma changed_columns_self:
  assumes "distinct (map fst row)" and "\<forall>(c, v)\<in>set row. \<not> ne v v"
  shows "changed_columns ne row row = []"
  using assms by (auto simp: changed_columns_def filter_empty_conv)

lemma b_table_loop_same:
  assumes "distinct (map fst table)"
    and "set items \<subseteq> set table"
    and "\<forall>(key, row)\<in>set items. distinct (map fst row)"
    and "\<forall>(key, row)\<in>set items. \<forall>(c, v)\<in>set row. \<not> ne v v"
  shows "b_table_loop ne pkeys t table items ins upd = Inr (ins, upd)"
  using assms(2,3,4)
proof (induction items)
  case Nil
  then show ?case by simp
next
  case (Cons p items)
  obtain key row where p: "p = (key, row)" by (cases p)
  have m: "map_of table key = Some row" using Cons.prems(1) p assms(1) by simp
  have d: "distinct (map fst row)" using Cons.prems(2) p by simp
  have r: "\<forall>(c, v)\<in>set row. \<not> ne v v" using Cons.prems(3) p by simp
  have "update_loop ne table key row [] = Inr ([] @ changed_columns ne row row)"
    using d by (intro update_loop_ok[OF m]) (auto simp: map_of_eq_None_iff)
  then have "update_loop ne table key row [] = Inr []"
    using changed_columns_self[where row = row and ne = ne] d r by simp
  moreover have "b_table_loop ne pkeys t table items ins upd = Inr (ins, upd)"
    using Cons by simp
  ultimately show ?case using p m by (simp add: contains_def)
qed

lemma a_table_loop_same:
  "a_table_loop table table [] = []"
  by (auto simp: a_table_loop_eq contains_def filter_empty_conv map_of_eq_None_iff intro: rev_image_eqI)

lemma b_table_loop_missing:
  assumes "(key, row) \<in> set items" and "map_of a_table key = Some a_row"
    and "c \<in> fst ` set row" and "map_of a_row c = None"
  shows "b_table_loop ne pkeys t a_table items ins upd = Inl KeyError"
proof -
  have "b_table_loop ne pkeys t a_table items ins upd \<noteq> Inr r" for r
    using assms(1)
  proof (induction items arbitrary: ins upd)
    case Nil
    then show ?case by simp
  next
    case (Cons p items)
    show ?case
    proof (cases "p = (key, row)")
      case True
      have "update_loop ne a_table key row [] = Inl KeyError"
        using assms(2-4) by (intro update_loop_missing) auto
      then show ?thesis using True assms(2) by (simp add: contains_def)
    next
      case False
      then have "(key, row) \<in> set items" using Cons.prems by simp
      from Cons.IH[OF this] show ?thesis
        by (cases p) (auto split: sum.splits if_splits)
    qed
  qed
  then show ?thesis
    by (cases "b_table_loop ne pkeys t a_table items ins upd") (auto dest: b_table_loop_error)
qed

lemma b_table_loop_succeeds:
  assumes "\<forall>(key, row)\<in>set items. distinct (map fst row) \<and>
             (\<forall>a_row. map_of a_table key = Some a_row \<longrightarrow>
                (\<forall>c\<in>fst ` set row. map_of a_row c \<noteq> None) \<and>
                (changed_columns ne a_row row \<noteq> [] \<longrightarrow>
                   (\<exists>pkey. map_of pkeys t = Some pkey \<and> map_of row pkey \<noteq> None)))"
  shows "\<exists>r. b_table_loop ne pkeys t a_table items ins upd = Inr r"
  using assms
proof (induction items arbitrary: ins upd)
  case Nil
  then show ?case by simp
next
  case (Cons p items)
  obtain key row where p: "p = (key, row)" by (cases p)
  have rest: "\<And>ins upd. \<exists>r. b_table_loop ne pkeys t a_table items ins upd = Inr r"
    using Cons by simp
  show ?case
  proof (cases "map_of a_table key")
    case None
    then show ?thesis using p rest by (simp add: contains_def)
  next
    case (Some a_row)
    have d: "distinct (map fst row)" and cols: "\<forall>c\<in>fst ` set row. map_of a_row c \<noteq> None"
      and pk: "changed_columns ne a_row row \<noteq> [] \<Longrightarrow>
                 \<exists>pkey. map_of pkeys t = Some pkey \<and> map_of row pkey \<noteq> None"
      using Cons.prems p Some by auto
    have ul: "update_loop ne a_table key row [] = Inr (changed_columns ne a_row row)"
      using update_loop_ok[OF Some d _ cols, where update = "[]" and ne = ne] by simp
    show ?thesis
    proof (cases "changed_columns ne a_row row = []")
      case True
      then show ?thesis using p Some ul rest by (simp add: contains_def)
    next
      case False
      from pk[OF False] obtain pkey v where "map_of pkeys t = Some pkey" "map_of row pkey = Some v"
        by auto
      then show ?thesis using p Some ul rest False by (simp add: contains_def getitem_def)
    qed
  qed
qed



lemma b_loop_error:
  "b_loop ne pkeys a compact items out = Inl e \<Longrightarrow> e = KeyError"
proof (induction ne pkeys a compact items out rule: b_loop.induct)
  case (1 ne pkeys a compact out)
  then show ?case by simp
next
  case (2 ne pkeys a compact table_name b_table items out)
  then show ?case
    by (auto simp: getitem_def Let_def split: if_splits sum.splits option.splits prod.splits
        dest: b_table_loop_error)
qed

lemma map_of_setitem: "map_of (setitem d k v) = (map_of d)(k \<mapsto> v)"
  by (simp add: setitem_def update_conv')

lemma b_loop_ok:
  assumes "b_loop ne pkeys a compact items out = Inr out'"
    and "distinct (map fst items)"
  shows "(\<forall>t. t \<notin> fst ` set items \<longrightarrow> map_of out' t = map_of out t) \<and>
         (\<forall>(t, b_table)\<in>set items. \<exists>a_table ins upd.
            map_of a t = Some a_table \<and>
            b_table_loop ne pkeys t a_table b_table [] [] = Inr (ins, upd) \<and>
            map_of out' t =
              (if ins = [] \<and> upd = [] \<and> a_table_loop b_table a_table [] = [] then map_of out t
               else Some (entry compact ins upd (a_table_loop b_table a_table []))))"
  using assms
proof (induction items arbitrary: out)
  case Nil
  then show ?case by simp
next
  case (Cons p items)
  obtain t b_table where p: "p = (t, b_table)" by (cases p)
  have fresh: "t \<notin> fst ` set items" and d: "distinct (map fst items)"
    using Cons.prems(2) p by auto
  from Cons.prems(1) p obtain a_table ins upd where
    a: "map_of a t = Some a_table" and
    bl: "b_table_loop ne pkeys t a_table b_table [] [] = Inr (ins, upd)"
    by (auto simp: getitem_def split: option.splits sum.splits)
  define del where "del = a_table_loop b_table a_table []"
  define out1 where "out1 = (if ins = [] \<and> upd = [] \<and> del = [] then out
     else setitem out t (entry compact ins upd del))"
  have run: "b_loop ne pkeys a compact items out1 = Inr out'"
    using Cons.prems(1) p a bl by (auto simp: getitem_def out1_def del_def entry_def Let_def)
  note IH = Cons.IH[OF run d]
  have here: "map_of out' t = map_of out1 t" using IH fresh by blast
  have other: "t' \<noteq> t \<Longrightarrow> map_of out1 t' = map_of out t'" for t'
    by (simp add: out1_def map_of_setitem)
  have "\<forall>t'. t' \<notin> fst ` set (p # items) \<longrightarrow> map_of out' t' = map_of out t'"
    using IH other p by auto
  moreover have "\<exists>a_table ins upd.
            map_of a t = Some a_table \<and>
            b_table_loop ne pkeys t a_table b_table [] [] = Inr (ins, upd) \<and>
            map_of out' t =
              (if ins = [] \<and> upd = [] \<and> a_table_loop b_table a_table [] = [] then map_of out t
               else Some (entry compact ins upd (a_table_loop b_table a_table [])))"
    using a bl here by (auto simp: out1_def del_def map_of_setitem)
  moreover have "\<forall>(t', b_table')\<in>set items. \<exists>a_table ins upd.
            map_of a t' = Some a_table \<and>
            b_table_loop ne pkeys t' a_table b_table' [] [] = Inr (ins, upd) \<and>
            map_of out' t' =
              (if ins = [] \<and> upd = [] \<and> a_table_loop b_table' a_table [] = [] then map_of out t'
               else Some (entry compact ins upd (a_table_loop b_table' a_table [])))"
  proof (clarify)
    fix t' b_table' assume mem: "(t', b_table') \<in> set items"
    then have ne: "t' \<noteq> t" using fresh by force
    from IH mem obtain a_table' ins' upd' where
      "map_of a t' = Some a_table'"
      "b_table_loop ne pkeys t' a_table' b_table' [] [] = Inr (ins', upd')"
      "map_of out' t' =
              (if ins' = [] \<and> upd' = [] \<and> a_table_loop b_table' a_table' [] = [] then map_of out1 t'
               else Some (entry compact ins' upd' (a_table_loop b_table' a_table' [])))"
      by blast
    then show "\<exists>a_table ins upd.
            map_of a t' = Some a_table \<and>
            b_table_loop ne pkeys t' a_table b_table' [] [] = Inr (ins, upd) \<and>
            map_of out' t' =
              (if ins = [] \<and> upd = [] \<and> a_table_loop b_table' a_table [] = [] then map_of out t'
               else Some (entry compact ins upd (a_table_loop b_table' a_table [])))"
      using other[OF ne] by auto
  qed
  ultimately show ?case using p by simp
qed

lemma b_loop_same:
  assumes "distinct (map fst s)"
    and "set items \<subseteq> set s"
    and "\<forall>(t, table)\<in>set items. distinct (map fst table) \<and> (\<forall>(key, row)\<in>set table. distinct (map fst row))"
    and "\<forall>(t, table)\<in>set items. \<forall>(key, row)\<in>set table. \<forall>(c, v)\<in>set row. \<not> ne v v"
  shows "b_loop ne pkeys s compact items out = Inr out"
  using assms(2,3,4)
proof (induction items)
  case Nil
  then show ?case by simp
next
  case (Cons p items)
  obtain t table where p: "p = (t, table)" by (cases p)
  have m: "map_of s t = Some table" using Cons.prems(1) p assms(1) by simp
  have d: "distinct (map fst table)" "\<forall>(key, row)\<in>set table. distinct (map fst row)"
    using Cons.prems(2) p by auto
  have r: "\<forall>(key, row)\<in>set table. \<forall>(c, v)\<in>set row. \<not> ne v v"
    using Cons.prems(3) p by simp
  have "b_table_loop ne pkeys t table table [] [] = Inr ([], [])"
    using d r by (intro b_table_loop_same) auto
  moreover have "b_loop ne pkeys s compact items out = Inr out" using Cons by simp
  ultimately show ?case using p m by (simp add: getitem_def a_table_loop_same)
qed

lemma b_loop_missing:
  assumes "(t, b_table) \<in> set items" and "map_of a t = Some a_table"
    and "(key, row) \<in> set b_table" and "map_of a_table key = Some a_row"
    and "c \<in> fst ` set row" and "map_of a_row c = None"
  shows "b_loop ne pkeys a compact items out = Inl KeyError"
proof -
  have "b_loop ne pkeys a compact items out \<noteq> Inr r" for r
    using assms(1)
  proof (induction items arbitrary: out)
    case Nil
    then show ?case by simp
  next
    case (Cons p items)
    show ?case
    proof (cases "p = (t, b_table)")
      case True
      have "b_table_loop ne pkeys t a_table b_table [] [] = Inl KeyError"
        using assms(3-6) by (rule b_table_loop_missing)
      then show ?thesis using True assms(2) by (simp add: getitem_def)
    next
      case False
      then have "(t, b_table) \<in> set items" using Cons.prems by simp
      from Cons.IH[OF this] show ?thesis
        by (cases p) (auto simp: Let_def split: sum.splits if_splits prod.splits)
    qed
  qed
  then show ?thesis
    by (cases "b_loop ne pkeys a compact items out") (auto dest: b_loop_error)
qed



lemma sort_keys_eq:
  fixes xs ys :: "'a::linorder list"
  assumes "distinct xs" "distinct ys"
  shows "(sort xs = sort ys) = (set xs = set ys)"
proof
  assume "sort xs = sort ys"
  then have "mset (sort xs) = mset (sort ys)" by simp
  then have "mset xs = mset ys" by simp
  then show "set xs = set ys" by (rule mset_eq_setD)
next
  assume "set xs = set ys"
  with assms have "mset xs = mset ys" by (simp add: set_eq_iff_mset_eq_distinct)
  then show "sort xs = sort ys" by (simp add: properties_for_sort)
qed

lemma b_loop_succeeds:
  assumes "\<forall>(t, b_table)\<in>set items. \<exists>a_table. map_of a t = Some a_table \<and>
     (\<forall>(key, row)\<in>set b_table. distinct (map fst row) \<and>
             (\<forall>a_row. map_of a_table key = Some a_row \<longrightarrow>
                (\<forall>c\<in>fst ` set row. map_of a_row c \<noteq> None) \<and>
                (changed_columns ne a_row row \<noteq> [] \<longrightarrow>
                   (\<exists>pkey. map_of pkeys t = Some pkey \<and> map_of row pkey \<noteq> None))))"
  shows "\<exists>r. b_loop ne pkeys a compact items out = Inr r"
  using assms
proof (induction items arbitrary: out)
  case Nil
  then show ?case by simp
next
  case (Cons p items)
  obtain t b_table where p: "p = (t, b_table)" by (cases p)
  have rest: "\<And>out. \<exists>r. b_loop ne pkeys a compact items out = Inr r"
    using Cons by simp
  from Cons.prems p obtain a_table where a: "map_of a t = Some a_table"
    and rows: "\<forall>(key, row)\<in>set b_table. distinct (map fst row) \<and>
             (\<forall>a_row. map_of a_table key = Some a_row \<longrightarrow>
                (\<forall>c\<in>fst ` set row. map_of a_row c \<noteq> None) \<and>
                (changed_columns ne a_row row \<noteq> [] \<longrightarrow>
                   (\<exists>pkey. map_of pkeys t = Some pkey \<and> map_of row pkey \<noteq> None)))"
    by auto
  from b_table_loop_succeeds[OF rows, of "[]" "[]"] obtain ins upd where
    "b_table_loop ne pkeys t a_table b_table [] [] = Inr (ins, upd)" by auto
  then show ?case using p a rest by (simp add: getitem_def Let_def)
qed


lemma setitem_map_values:
  "setitem (map (\<lambda>(k, v). (k, f v)) d) k (f v) = map (\<lambda>(k, v). (k, f v)) (setitem d k v)"
  by (induction d) (auto simp: setitem_def)

lemma b_loop_compact:
  "b_loop ne pkeys a True items (map (\<lambda>(t, c). (t, counts_of c)) out) =
     (case b_loop ne pkeys a False items out of
        Inl e \<Rightarrow> Inl e
      | Inr out' \<Rightarrow> Inr (map (\<lambda>(t, c). (t, counts_of c)) out'))"
proof (induction items arbitrary: out)
  case Nil
  then show ?case by simp
next
  case (Cons p items)
  obtain t b_table where p: "p = (t, b_table)" by (cases p)
  have step: "setitem (map (\<lambda>(t, c). (t, counts_of c)) out) t (Counts [length i, length u, length d]) =
        map (\<lambda>(t, c). (t, counts_of c)) (setitem out t (Changes i u d))" for i u d
    using setitem_map_values[of counts_of out t "Changes i u d"] by simp
  show ?case using p Cons.IH
    by (auto simp: Let_def step split: sum.splits prod.splits)
qed


lemma setitem_values: "snd ` set (setitem d k v) \<subseteq> insert v (snd ` set d)"
  by (induction d) (auto simp: setitem_def)

lemma b_loop_Changes:
  assumes "b_loop ne pkeys a False items out = Inr out'"
    and "\<forall>c\<in>snd ` set out. is_Changes c"
  shows "\<forall>c\<in>snd ` set out'. is_Changes c"
  using assms
proof (induction items arbitrary: out)
  case Nil
  then show ?case by simp
next
  case (Cons p items)
  obtain t b_table where p: "p = (t, b_table)" by (cases p)
  from Cons.prems(1) p obtain out1 where run: "b_loop ne pkeys a False items out1 = Inr out'"
    and out1: "out1 = out \<or> (\<exists>i u d. out1 = setitem out t (Changes i u d))"
    by (auto simp: Let_def split: sum.splits prod.splits if_splits)
  have "\<forall>c\<in>snd ` set out1. is_Changes c"
  proof
    fix c assume c: "c \<in> snd ` set out1"
    from out1 show "is_Changes c"
    proof
      assume "out1 = out" with c Cons.prems(2) show ?thesis by blast
    next
      assume "\<exists>i u d. out1 = setitem out t (Changes i u d)"
      then obtain i u d where "out1 = setitem out t (Changes i u d)" by blast
      with c setitem_values[of out t "Changes i u d"]
      have "c = Changes i u d \<or> c \<in> snd ` set out" by auto
      with Cons.prems(2) show ?thesis by (metis is_Changes.simps(1))
    qed
  qed
  from Cons.IH[OF run this] show ?case .
qed



subsection \<open>Well-formed dumps and the example database\<close>

lemma is_snapshotD:
  assumes "is_snapshot d"
  shows "distinct (map fst d)"
    and "(t, table) \<in> set d \<Longrightarrow> distinct (map fst table)"
    and "(t, table) \<in> set d \<Longrightarrow> (key, row) \<in> set table \<Longrightarrow> distinct (map fst row)"
  using assms by (auto simp: is_snapshot_def is_dict_def list_all_iff)

lemma widgets_pkeys: "u_get_primary_keys widgets_db s = Inr [(''widgets'', ''id'')]"
  by (simp add: u_get_primary_keys_def widgets_db_def recording_db_def widgets_index_def
      extract_pkey_def index_def setitem_def)

lemma widgets_diff:
  "u_diff str_ne widgets_db s widgets_a widgets_b False =
     Inr [(''widgets'',
           Changes [widget ''4'' ''D''] [[(''name'', ''Z''), (''id'', ''2'')]] [widget ''3'' ''C''])]"
  by (simp add: u_diff_def widgets_pkeys widgets_a_def widgets_b_def keys_def widget_def
      getitem_def contains_def setitem_def str_ne_def)

lemma widgets_snapshots: "is_snapshot widgets_a" "is_snapshot widgets_b"
  by (simp_all add: is_snapshot_def is_dict_def widgets_a_def widgets_b_def widget_def)


subsection \<open>The entries of a diff\<close>


lemma map_of_filter_kept:
  assumes "distinct (map fst xs)" and "map_of xs k = Some v" and "P (k, v)"
  shows "map_of (filter P xs) k = Some v"
proof -
  have "(k, v) \<in> set (filter P xs)" using assms(2,3) by (auto dest: map_of_SomeD)
  moreover have "distinct (map fst (filter P xs))" using assms(1) by (rule distinct_map_filter)
  ultimately show ?thesis by simp
qed

lemma keys_changed_columns:
  assumes "distinct (map fst row)" and "\<forall>c\<in>fst ` set row. map_of a_row c \<noteq> None"
  shows "fst ` set (changed_columns ne a_row row) =
           {c. \<exists>a_value value. map_of a_row c = Some a_value \<and> map_of row c = Some value \<and>
                 ne a_value value}"
proof (rule set_eqI)
  fix c
  show "c \<in> fst ` set (changed_columns ne a_row row) \<longleftrightarrow>
        c \<in> {c. \<exists>a_value value. map_of a_row c = Some a_value \<and> map_of row c = Some value \<and>
                 ne a_value value}"
  proof
    assume "c \<in> fst ` set (changed_columns ne a_row row)"
    then obtain v where v: "(c, v) \<in> set row"
        "case map_of a_row c of None \<Rightarrow> True | Some a_value \<Rightarrow> ne a_value v"
      by (auto simp: changed_columns_def)
    then have "map_of row c = Some v" using assms(1) by simp
    moreover obtain av where "map_of a_row c = Some av" using v(1) assms(2) by force
    ultimately show "c \<in> {c. \<exists>a_value value. map_of a_row c = Some a_value \<and>
        map_of row c = Some value \<and> ne a_value value}"
      using v(2) by auto
  next
    assume "c \<in> {c. \<exists>a_value value. map_of a_row c = Some a_value \<and>
        map_of row c = Some value \<and> ne a_value value}"
    then obtain av v where "map_of a_row c = Some av" "map_of row c = Some v" "ne av v" by auto
    then have "(c, v) \<in> set (changed_columns ne a_row row)"
      by (auto simp: changed_columns_def dest: map_of_SomeD)
    then show "c \<in> fst ` set (changed_columns ne a_row row)" by force
  qed
qed

lemma update_record:
  fixes ne :: "'v \<Rightarrow> 'v \<Rightarrow> bool"
  assumes d: "distinct (map fst row)" and cols: "\<forall>c\<in>fst ` set row. map_of a_row c \<noteq> None"
    and v: "map_of row pkey = Some v"
  defines "u \<equiv> setitem (changed_columns ne a_row row) pkey v"
  shows "is_dict u"
    and "set (keys u) =
           {c. \<exists>a_value value. map_of a_row c = Some a_value \<and> map_of row c = Some value \<and>
                 ne a_value value} \<union> {pkey}"
    and "\<forall>c\<in>set (keys u). map_of u c = map_of row c"
proof -
  have dc: "distinct (map fst (changed_columns ne a_row row))"
    using d by (simp add: changed_columns_def distinct_map_filter)
  then show "is_dict u" by (simp add: u_def is_dict_def setitem_def distinct_update)
  have "set (keys u) = {pkey} \<union> fst ` set (changed_columns ne a_row row)"
    by (simp add: u_def keys_def setitem_def dom_update)
  then show "set (keys u) =
           {c. \<exists>a_value value. map_of a_row c = Some a_value \<and> map_of row c = Some value \<and>
                 ne a_value value} \<union> {pkey}"
    using keys_changed_columns[OF d cols] by auto
  show "\<forall>c\<in>set (keys u). map_of u c = map_of row c"
  proof
    fix c assume "c \<in> set (keys u)"
    then have c: "c = pkey \<or> c \<in> fst ` set (changed_columns ne a_row row)"
      by (auto simp: u_def keys_def setitem_def dom_update)
    show "map_of u c = map_of row c"
    proof (cases "c = pkey")
      case True
      then show ?thesis using v by (simp add: u_def map_of_setitem)
    next
      case False
      with c obtain w where w: "(c, w) \<in> set row"
          "case map_of a_row c of None \<Rightarrow> True | Some a_value \<Rightarrow> ne a_value w"
        by (auto simp: changed_columns_def)
      then have "map_of row c = Some w" using d by simp
      then have "map_of (changed_columns ne a_row row) c = Some w"
        using w(2) d by (simp add: changed_columns_def map_of_filter_kept)
      then show ?thesis using False \<open>map_of row c = Some w\<close> by (simp add: u_def map_of_setitem)
    qed
  qed
qed



lemma u_diff_b_loop:
  assumes "u_get_primary_keys db s = Inr pkeys" and "u_diff ne db s a b compact = Inr out"
  shows "b_loop ne pkeys a compact b [] = Inr out"
  using assms by (auto simp: u_diff_def split: if_splits)

lemma diff_table_entry:
  assumes pk: "u_get_primary_keys db s = Inr pkeys"
    and b: "is_snapshot b"
    and run: "u_diff ne db s a b False = Inr out"
  shows "map_of b t = None \<Longrightarrow> map_of out t = None"
    and "map_of b t = Some b_table \<Longrightarrow>
      \<exists>a_table upd. map_of a t = Some a_table \<and>
        map Some upd = map (update_of ne pkeys t a_table) (filter (row_changed ne a_table) b_table) \<and>
        (\<forall>(key, row)\<in>set b_table. \<forall>a_row. map_of a_table key = Some a_row \<longrightarrow>
            (\<forall>c\<in>fst ` set row. map_of a_row c \<noteq> None)) \<and>
        map_of out t =
          (if map snd (filter (\<lambda>(key, row). \<not> contains a_table key) b_table) = [] \<and> upd = [] \<and>
              map snd (filter (\<lambda>(key, row). \<not> contains b_table key) a_table) = []
           then None
           else Some (Changes (map snd (filter (\<lambda>(key, row). \<not> contains a_table key) b_table)) upd
                        (map snd (filter (\<lambda>(key, row). \<not> contains b_table key) a_table))))"
proof -
  note loop = b_loop_ok[OF u_diff_b_loop[OF pk run] is_snapshotD(1)[OF b]]
  show "map_of out t = None" if "map_of b t = None"
    using loop that by (simp add: map_of_eq_None_iff)
  show "\<exists>a_table upd. map_of a t = Some a_table \<and>
        map Some upd = map (update_of ne pkeys t a_table) (filter (row_changed ne a_table) b_table) \<and>
        (\<forall>(key, row)\<in>set b_table. \<forall>a_row. map_of a_table key = Some a_row \<longrightarrow>
            (\<forall>c\<in>fst ` set row. map_of a_row c \<noteq> None)) \<and>
        map_of out t =
          (if map snd (filter (\<lambda>(key, row). \<not> contains a_table key) b_table) = [] \<and> upd = [] \<and>
              map snd (filter (\<lambda>(key, row). \<not> contains b_table key) a_table) = []
           then None
           else Some (Changes (map snd (filter (\<lambda>(key, row). \<not> contains a_table key) b_table)) upd
                        (map snd (filter (\<lambda>(key, row). \<not> contains b_table key) a_table))))"
    if "map_of b t = Some b_table"
  proof -
    from that have mem: "(t, b_table) \<in> set b" by (rule map_of_SomeD)
    with loop obtain a_table ins upd where
      a: "map_of a t = Some a_table" and
      bl: "b_table_loop ne pkeys t a_table b_table [] [] = Inr (ins, upd)" and
      o: "map_of out t =
              (if ins = [] \<and> upd = [] \<and> a_table_loop b_table a_table [] = [] then map_of [] t
               else Some (entry False ins upd (a_table_loop b_table a_table [])))"
      by fast
    have rows: "\<forall>(key, row)\<in>set b_table. distinct (map fst row)"
      using is_snapshotD(3)[OF b mem] by auto
    from b_table_loop_ok[OF bl rows] have
      i: "ins = map snd (filter (\<lambda>(key, row). \<not> contains a_table key) b_table)" and
      u: "map Some upd = map (update_of ne pkeys t a_table) (filter (row_changed ne a_table) b_table)" and
      c: "\<forall>(key, row)\<in>set b_table. \<forall>a_row. map_of a_table key = Some a_row \<longrightarrow>
            (\<forall>c\<in>fst ` set row. map_of a_row c \<noteq> None)"
      by auto
    show ?thesis using a i u c o by (auto simp: a_table_loop_eq entry_def)
  qed
qed

lemma diff_succeeds:
  assumes pk: "u_get_primary_keys db s = Inr pkeys"
    and a: "is_snapshot a" and b: "is_snapshot b"
    and names: "set (keys a) = set (keys b)"
    and cols: "\<forall>(t, b_table)\<in>set b. \<forall>(key, row)\<in>set b_table. \<forall>a_table a_row.
         map_of a t = Some a_table \<and> map_of a_table key = Some a_row \<longrightarrow>
         set (keys row) \<subseteq> set (keys a_row) \<and>
         (\<exists>pkey. map_of pkeys t = Some pkey \<and> contains row pkey)"
  shows "\<exists>out. u_diff ne db s a b compact = Inr out"
proof -
  have srt: "sort (keys a) = sort (keys b)"
    using names is_snapshotD(1)[OF a] is_snapshotD(1)[OF b] by (simp add: sort_keys_eq keys_def)
  have "\<forall>(t, b_table)\<in>set b. \<exists>a_table. map_of a t = Some a_table \<and>
     (\<forall>(key, row)\<in>set b_table. distinct (map fst row) \<and>
             (\<forall>a_row. map_of a_table key = Some a_row \<longrightarrow>
                (\<forall>c\<in>fst ` set row. map_of a_row c \<noteq> None) \<and>
                (changed_columns ne a_row row \<noteq> [] \<longrightarrow>
                   (\<exists>pkey. map_of pkeys t = Some pkey \<and> map_of row pkey \<noteq> None))))"
  proof (clarify)
    fix t b_table assume mem: "(t, b_table) \<in> set b"
    then have bt: "map_of b t = Some b_table" using is_snapshotD(1)[OF b] by simp
    from mem have "t \<in> set (keys a)" using names by (force simp: keys_def)
    then obtain a_table where at: "map_of a t = Some a_table"
      by (auto simp: keys_def dest: weak_map_of_SomeI)
    have "\<forall>(key, row)\<in>set b_table. distinct (map fst row) \<and>
             (\<forall>a_row. map_of a_table key = Some a_row \<longrightarrow>
                (\<forall>c\<in>fst ` set row. map_of a_row c \<noteq> None) \<and>
                (changed_columns ne a_row row \<noteq> [] \<longrightarrow>
                   (\<exists>pkey. map_of pkeys t = Some pkey \<and> map_of row pkey \<noteq> None)))"
    proof (clarify, intro conjI allI impI)
      fix key row assume r: "(key, row) \<in> set b_table"
      show "distinct (map fst row)" using is_snapshotD(3)[OF b mem r] .
      have br: "map_of b_table key = Some row" using r is_snapshotD(2)[OF b mem] by simp
      fix a_row assume ar: "map_of a_table key = Some a_row"
      from cols mem r at ar have 1: "set (keys row) \<subseteq> set (keys a_row)"
        and 2: "\<exists>pkey. map_of pkeys t = Some pkey \<and> contains row pkey" by blast+
      from 1 show "\<forall>c\<in>fst ` set row. map_of a_row c \<noteq> None"
        by (auto simp: keys_def map_of_eq_None_iff)
      from 2 show "\<exists>pkey. map_of pkeys t = Some pkey \<and> map_of row pkey \<noteq> None"
        by (simp add: contains_def)
    qed
    with at show "\<exists>a_table. map_of a t = Some a_table \<and>
     (\<forall>(key, row)\<in>set b_table. distinct (map fst row) \<and>
             (\<forall>a_row. map_of a_table key = Some a_row \<longrightarrow>
                (\<forall>c\<in>fst ` set row. map_of a_row c \<noteq> None) \<and>
                (changed_columns ne a_row row \<noteq> [] \<longrightarrow>
                   (\<exists>pkey. map_of pkeys t = Some pkey \<and> map_of row pkey \<noteq> None))))"
      by blast
  qed
  from b_loop_succeeds[OF this] show ?thesis using pk srt by (simp add: u_diff_def)
qed



subsection \<open>Introspection, loading and deleting\<close>

lemma str_split_nonempty: "str_split sep s \<noteq> []"
  by (induction s) (auto split: list.splits)

lemma hd_str_split: "hd (str_split sep s) = takeWhile (\<lambda>c. c \<noteq> sep) s"
  by (induction s) (auto split: list.splits simp: str_split_nonempty)

lemma length_str_split: "(1 < length (str_split sep s)) = (sep \<in> set s)"
  by (induction s) (auto split: list.splits simp: str_split_nonempty)

lemma str_split_second:
  "sep \<in> set s \<Longrightarrow>
     str_split sep s ! Suc 0 = takeWhile (\<lambda>c. c \<noteq> sep) (tl (dropWhile (\<lambda>c. c \<noteq> sep) s))"
proof (induction s)
  case Nil
  then show ?case by simp
next
  case (Cons c cs)
  show ?case
  proof (cases "c = sep")
    case True
    then show ?thesis
      using hd_str_split[of sep cs] str_split_nonempty[of sep cs]
      by (simp add: hd_conv_nth)
  next
    case False
    with Cons show ?thesis
      by (auto split: list.splits simp: str_split_nonempty)
  qed
qed

lemma extract_pkey_eq:
  "extract_pkey d =
     (if CHR ''('' \<in> set d then Inr (between_parens d) else Inl IndexError)"
proof (cases "CHR ''('' \<in> set d")
  case True
  then have 1: "index (str_split (CHR ''('') d) (Suc 0) =
      Inr (takeWhile (\<lambda>c. c \<noteq> CHR ''('') (tl (dropWhile (\<lambda>c. c \<noteq> CHR ''('') d)))"
    using length_str_split[of "CHR ''(''" d] by (simp add: index_def str_split_second)
  have 2: "index (str_split (CHR '')'') x) 0 = Inr (takeWhile (\<lambda>c. c \<noteq> CHR '')'') x)" for x
    using str_split_nonempty[of "CHR '')''" x] hd_str_split[of "CHR '')''" x]
    by (simp add: index_def hd_conv_nth)
  show ?thesis using True by (simp add: extract_pkey_def 1 2 between_parens_def)
next
  case False
  then show ?thesis
    using length_str_split[of "CHR ''(''" d] by (simp add: extract_pkey_def index_def)
qed

lemma pkeys_loop_ok:
  assumes "\<forall>row\<in>set rows. CHR ''('' \<in> set (indexdef row)"
  shows "\<exists>pkeys'. pkeys_loop rows pkeys = Inr pkeys' \<and>
           (is_dict pkeys \<longrightarrow> is_dict pkeys') \<and>
           map_of pkeys' =
             map_of pkeys ++
               map_of (rev (map (\<lambda>row. (tablename row, between_parens (indexdef row))) rows))"
  using assms
proof (induction rows arbitrary: pkeys)
  case Nil
  then show ?case by simp
next
  case (Cons row rows)
  let ?p = "setitem pkeys (tablename row) (between_parens (indexdef row))"
  from Cons.prems have "\<forall>row\<in>set rows. CHR ''('' \<in> set (indexdef row)" by simp
  from Cons.IH[OF this, of ?p] obtain pkeys' where
    run: "pkeys_loop rows ?p = Inr pkeys'" and d: "is_dict ?p \<longrightarrow> is_dict pkeys'" and
    m: "map_of pkeys' = map_of ?p ++
          map_of (rev (map (\<lambda>row. (tablename row, between_parens (indexdef row))) rows))"
    by blast
  have "pkeys_loop (row # rows) pkeys = Inr pkeys'"
    using Cons.prems run by (simp add: extract_pkey_eq)
  moreover have "is_dict pkeys \<longrightarrow> is_dict pkeys'"
    using d by (simp add: is_dict_def setitem_def distinct_update)
  moreover have "map_of pkeys' = map_of pkeys ++
      map_of (rev (map (\<lambda>row. (tablename row, between_parens (indexdef row))) (row # rows)))"
    by (simp add: m map_of_setitem fun_eq_iff map_add_def split: option.splits)
  ultimately show ?case by blast
qed

lemma pkeys_loop_IndexError:
  assumes "\<exists>row\<in>set rows. CHR ''('' \<notin> set (indexdef row)"
  shows "pkeys_loop rows pkeys = Inl IndexError"
  using assms
proof (induction rows arbitrary: pkeys)
  case Nil
  then show ?case by simp
next
  case (Cons row rows)
  then show ?case by (cases "CHR ''('' \<in> set (indexdef row)") (simp_all add: extract_pkey_eq)
qed

lemma colnames_loop_eq:
  "colnames_loop items colnames vals =
     (if list_all colname_re_match (map fst items)
      then Inr (colnames @ map fst items, vals @ map snd items)
      else Inl (ValueError (''colname must match '' @ colname_re_pattern)))"
  by (induction items arbitrary: colnames vals) auto

lemma call_loop_append:
  "call_loop db known table_name (pre @ rest) s =
     (case call_loop db known table_name pre s of
        (Inl e, s') \<Rightarrow> (Inl e, s')
      | (Inr table_name', s') \<Rightarrow> call_loop db known table_name' rest s')"
proof (induction db known table_name pre s rule: call_loop.induct)
  case (1 db known_tables table_name s)
  then show ?case by simp
next
  case (2 db known_tables table_name name data s)
  then show ?case by simp
next
  case (3 db known_tables table_name row data s)
  then show ?case by (simp split: sum.splits prod.splits)
next
  case (4 db known_tables table_name vals data s)
  then show ?case by simp
qed

lemma map_fst_insort_key:
  "map fst (insort_key fst x xs) = insort (fst x) (map fst xs)"
  by (induction xs) auto

lemma map_fst_sort_key: "map fst (sort_key fst xs) = sort (map fst xs)"
  by (induction xs) (simp_all add: map_fst_insort_key)

lemma sorted_items_values:
  assumes "distinct (map fst row)" and "i < length row"
  shows "map_of row (sort (map fst row) ! i) = Some (map snd (sort_key fst row) ! i)"
proof -
  have "(sort_key fst row ! i) \<in> set row"
    using assms(2) by (metis length_sort nth_mem set_sort)
  then have "map_of row (fst (sort_key fst row ! i)) = Some (snd (sort_key fst row ! i))"
    using assms(1) by (intro map_of_is_SomeI) simp_all
  then show ?thesis using assms(2) by (simp add: map_fst_sort_key[symmetric])
qed

lemma all_sorted_colnames:
  "list_all colname_re_match (map fst (sort_key fst row)) = list_all colname_re_match (map fst row)"
  "list_all colname_re_match (sort (map fst row)) = list_all colname_re_match (map fst row)"
  by (simp_all add: list_all_iff)

lemma colname_examples:
  "colname_re_match ''id''" "colname_re_match ''name''" "\<not> colname_re_match ''na me''"
  "\<not> colname_re_match ''id; DROP TABLE widgets''" "\<not> colname_re_match ''''"
  "colname_re_match [CHR ''i'', CHR ''d'', CHR 0x0A]"
  by (simp_all add: colname_re_match_def colname_char_def less_eq_char_def)

lemma sort_example: "sort [''name'', ''id''] = [''id'', ''name'']"
  by (simp add: less_eq_char_def)

lemma widgets_db_simps:
  "execute widgets_db sql vals s = s @ [(sql, vals)]"
  "fetchall_pg_tables widgets_db s = Some [''widgets'']"
  "fetchall_select widgets_db t s = (if t = ''widgets'' then Some [widget ''1'' ''A''] else None)"
  "u_get_table_names widgets_db s = [''widgets'']"
  by (simp_all add: widgets_db_def recording_db_def u_get_table_names_def)

lemma truncate_loop_fold:
  "truncate_loop db table_names s =
     fold (\<lambda>table_name. execute db (''TRUNCATE TABLE '' @ table_name @ '' CASCADE'') []) table_names s"
  by (induction table_names arbitrary: s) simp_all

lemma widgets_dump: "dump widgets_db s = Inr [(''widgets'', [(''1'', widget ''1'' ''A'')])]"
  by (simp add: dump_def widgets_pkeys widgets_db_simps getitem_def setitem_def widget_def)

lemma colname_re_match_iff:
  "colname_re_match s =
     ((s \<noteq> [] \<and> list_all colname_char s) \<or>
      (\<exists>body. body \<noteq> [] \<and> list_all colname_char body \<and> s = body @ [CHR 0x0A]))"
proof (cases "s \<noteq> [] \<and> last s = CHR 0x0A")
  case True
  then have s: "s = butlast s @ [CHR 0x0A]" by (metis append_butlast_last_id)
  have nl: "\<not> colname_char (CHR 0x0A)" by (simp add: colname_char_def less_eq_char_def)
  have "\<not> list_all colname_char (butlast s @ [CHR 0x0A])" using nl by simp
  then have no: "\<not> list_all colname_char s" using s by simp
  have "(\<exists>body. body \<noteq> [] \<and> list_all colname_char body \<and> s = body @ [CHR 0x0A]) =
      (butlast s \<noteq> [] \<and> list_all colname_char (butlast s))"
    using s by (metis butlast_snoc)
  then show ?thesis using True no by (simp add: colname_re_match_def Let_def)
next
  case False
  then have "\<nexists>body. s = body @ [CHR 0x0A]" by auto
  then show ?thesis using False by (auto simp: colname_re_match_def)
qed


subsection \<open>The heap\<close>

lemma get_ext:
  "get_row h r = Inr cols \<Longrightarrow> get_row (h @ ext) r = Inr cols"
  "get_table h r = Inr rows \<Longrightarrow> get_table (h @ ext) r = Inr rows"
  "get_dump h r = Inr tables \<Longrightarrow> get_dump (h @ ext) r = Inr tables"
  by (auto simp: get_row_def get_table_def get_dump_def nth_append split: if_splits)

lemma get_lt:
  "get_row h r = Inr cols \<Longrightarrow> r < length h"
  "get_table h r = Inr rows \<Longrightarrow> r < length h"
  "get_dump h r = Inr tables \<Longrightarrow> r < length h"
  by (auto simp: get_row_def get_table_def get_dump_def split: if_splits)

lemma get_new:
  "get_row (h @ [RowObj cols]) (length h) = Inr cols"
  "get_table (h @ [TableObj rows]) (length h) = Inr rows"
  "get_dump (h @ [DumpObj tables]) (length h) = Inr tables"
  by (simp_all add: get_row_def get_table_def get_dump_def)

lemma read_rows_ext: "read_rows h rs = Inr rows \<Longrightarrow> read_rows (h @ ext) rs = Inr rows"
  by (induction rs arbitrary: rows) (auto split: sum.splits simp: get_ext)

lemma read_table_ext: "read_table h r = Inr table \<Longrightarrow> read_table (h @ ext) r = Inr table"
  by (auto simp: read_table_def get_ext read_rows_ext split: sum.splits)

lemma read_tables_ext: "read_tables h ts = Inr d \<Longrightarrow> read_tables (h @ ext) ts = Inr d"
  by (induction ts arbitrary: d) (auto split: sum.splits simp: read_table_ext)

lemma read_dump_ext: "read_dump h r = Inr d \<Longrightarrow> read_dump (h @ ext) r = Inr d"
  by (auto simp: read_dump_def get_ext read_tables_ext split: sum.splits)

lemma store_rows_ok:
  "store_rows items h = (rs, h') \<Longrightarrow>
     (\<exists>ext. h' = h @ ext) \<and> read_rows h' rs = Inr items \<and> (\<forall>r\<in>snd ` set rs. length h \<le> r)"
proof (induction items arbitrary: h rs h')
  case Nil
  then show ?case by simp
next
  case (Cons p items)
  obtain key row where p: "p = (key, row)" by (cases p)
  obtain rs1 h1 where rec: "store_rows items (h @ [RowObj row]) = (rs1, h1)" by force
  from Cons.IH[OF rec] obtain ext where
    e: "h1 = (h @ [RowObj row]) @ ext" and r: "read_rows h1 rs1 = Inr items"
    and f: "\<forall>r\<in>snd ` set rs1. length (h @ [RowObj row]) \<le> r" by blast
  have res: "rs = (key, length h) # rs1" "h' = h1"
    using Cons.prems p rec by (simp_all add: alloc_def)
  have "get_row h1 (length h) = Inr row"
    unfolding e using get_ext(1)[of "h @ [RowObj row]" "length h" row ext] by (simp add: get_new)
  then have "read_rows h' rs = Inr (p # items)" using res r p by simp
  moreover have "\<exists>ext. h' = h @ ext" using e res by simp
  moreover have "\<forall>r\<in>snd ` set rs. length h \<le> r" using f res by auto
  ultimately show ?case by blast
qed

lemma table_refs_ext:
  "read_tables h ts = Inr d \<Longrightarrow> table_refs (h @ ext) ts = table_refs h ts"
  by (induction ts arbitrary: d) (auto split: sum.splits simp: read_table_def get_ext)

lemma store_tables_ok:
  "store_tables d h = (ts, h') \<Longrightarrow>
     (\<exists>ext. h' = h @ ext) \<and> read_tables h' ts = Inr d \<and>
     (\<forall>r\<in>set (table_refs h' ts). length h \<le> r)"
proof (induction d arbitrary: h ts h')
  case Nil
  then show ?case by simp
next
  case (Cons p d)
  obtain table_name table where p: "p = (table_name, table)" by (cases p)
  obtain rows h1 where sr: "store_rows table h = (rows, h1)" by force
  obtain ts1 h3 where rec: "store_tables d (h1 @ [TableObj rows]) = (ts1, h3)" by force
  from store_rows_ok[OF sr] obtain ext1 where
    e1: "h1 = h @ ext1" and r1: "read_rows h1 rows = Inr table"
    and f1: "\<forall>r\<in>snd ` set rows. length h \<le> r" by blast
  from Cons.IH[OF rec] obtain ext3 where
    e3: "h3 = (h1 @ [TableObj rows]) @ ext3" and r3: "read_tables h3 ts1 = Inr d"
    and f3: "\<forall>r\<in>set (table_refs h3 ts1). length (h1 @ [TableObj rows]) \<le> r" by blast
  have res: "ts = (table_name, length h1) # ts1" "h' = h3"
    using Cons.prems p sr rec by (simp_all add: alloc_def)
  have gt: "get_table h3 (length h1) = Inr rows"
    unfolding e3 using get_ext(2)[of "h1 @ [TableObj rows]" "length h1" rows ext3]
    by (simp add: get_new)
  have "read_rows h3 rows = Inr table"
    using r1 unfolding e3 by (simp add: read_rows_ext del: append_assoc)
  then have rt: "read_table h3 (length h1) = Inr table" using gt by (simp add: read_table_def)
  have "read_tables h' ts = Inr (p # d)" using res rt r3 p by simp
  moreover have "\<exists>ext. h' = h @ ext" using e1 e3 res by simp
  moreover have "\<forall>r\<in>set (table_refs h' ts). length h \<le> r"
    using res gt f1 f3 e1 by auto
  ultimately show ?case by blast
qed

lemma store_dump_ok:
  assumes "store_dump d h = (r, h')"
  shows "\<exists>ext. h' = h @ ext" and "read_dump h' r = Inr d"
    and "\<forall>p\<in>set (row_refs h' r). length h \<le> p" and "length h \<le> r"
proof -
  obtain ts h1 where st: "store_tables d h = (ts, h1)" by force
  from store_tables_ok[OF st] obtain ext where
    e: "h1 = h @ ext" and rd: "read_tables h1 ts = Inr d"
    and f: "\<forall>r\<in>set (table_refs h1 ts). length h \<le> r" by blast
  have res: "r = length h1" "h' = h1 @ [DumpObj ts]"
    using assms st by (simp_all add: store_dump_def alloc_def)
  show "\<exists>ext. h' = h @ ext" using e res by simp
  have gd: "get_dump h' r = Inr ts" using res by (simp add: get_new)
  have rt: "read_tables h' ts = Inr d" using rd res by (simp add: read_tables_ext)
  show "read_dump h' r = Inr d" using gd rt by (simp add: read_dump_def)
  have "table_refs h' ts = table_refs h1 ts" using rd res by (simp add: table_refs_ext)
  then show "\<forall>p\<in>set (row_refs h' r). length h \<le> p" using gd f by (simp add: row_refs_def)
  show "length h \<le> r" using res e by simp
qed

lemma read_rows_getitem:
  "read_rows h rs = Inr rows \<Longrightarrow>
     getitem rows key = (case getitem rs key of Inl e \<Rightarrow> Inl e | Inr r \<Rightarrow> get_row h r)"
  by (induction rs arbitrary: rows) (auto simp: getitem_def split: sum.splits)

lemma read_rows_contains: "read_rows h rs = Inr rows \<Longrightarrow> contains rows key = contains rs key"
  by (induction rs arbitrary: rows) (auto simp: contains_def split: sum.splits)

lemma read_tables_getitem:
  "read_tables h ts = Inr d \<Longrightarrow>
     getitem d t = (case getitem ts t of Inl e \<Rightarrow> Inl e | Inr r \<Rightarrow> read_table h r)"
  by (induction ts arbitrary: d) (auto simp: getitem_def split: sum.splits)

lemma read_tables_keys: "read_tables h ts = Inr d \<Longrightarrow> keys d = keys ts"
  by (induction ts arbitrary: d) (auto simp: keys_def split: sum.splits)

lemma read_tables_refs:
  "getitem ts t = Inr r \<Longrightarrow> get_table h r = Inr rows \<Longrightarrow>
     snd ` set rows \<subseteq> set (table_refs h ts)"
proof (induction ts)
  case Nil
  then show ?case by (simp add: getitem_def)
next
  case (Cons p ts)
  obtain t' r' where p: "p = (t', r')" by (cases p)
  show ?case
  proof (cases "t' = t")
    case True
    then have "r' = r" using Cons.prems(1) p by (simp add: getitem_def)
    then show ?thesis using p Cons.prems(2) by simp
  next
    case False
    then have "getitem ts t = Inr r" using Cons.prems(1) p by (simp add: getitem_def)
    from Cons.IH[OF this Cons.prems(2)] show ?thesis using p by auto
  qed
qed

lemma read_list_snoc:
  "read_list h rs = Inr rows \<Longrightarrow> get_row h r = Inr row \<Longrightarrow>
     read_list h (rs @ [r]) = Inr (rows @ [row])"
  by (induction rs arbitrary: rows) (auto split: sum.splits)

lemma h_update_loop_eq:
  assumes "get_table h a_table = Inr a_rows" and "read_rows h a_rows = Inr a_table_v"
  shows "h_update_loop ne h a_table key items update = update_loop ne a_table_v key items update"
proof (induction items arbitrary: update)
  case Nil
  then show ?case by simp
next
  case (Cons p items)
  obtain colname v where p: "p = (colname, v)" by (cases p)
  show ?case
    using Cons assms(1) read_rows_getitem[OF assms(2), of key] p
    by (auto split: sum.splits)
qed

lemma h_b_table_loop_eq:
  assumes "get_table h a_table = Inr a_rows" and "read_rows h a_rows = Inr a_table_v"
    and "read_rows h items = Inr items_v" and "read_list h ins = Inr ins_v"
  shows "case b_table_loop ne pkeys t a_table_v items_v ins_v upd of
           Inl e \<Rightarrow> h_b_table_loop ne h pkeys t a_table items ins upd = Inl e
         | Inr (ins_v', upd') \<Rightarrow>
             (\<exists>ins'. h_b_table_loop ne h pkeys t a_table items ins upd = Inr (ins', upd') \<and>
                read_list h ins' = Inr ins_v' \<and> set ins' \<subseteq> set ins \<union> snd ` set items)"
  using assms(3,4)
proof (induction items arbitrary: items_v ins ins_v upd)
  case Nil
  then show ?case by simp
next
  case (Cons p items)
  obtain key row where p: "p = (key, row)" by (cases p)
  from Cons.prems(1) p obtain cols rest where
    row: "get_row h row = Inr cols" and rest: "read_rows h items = Inr rest"
    and iv: "items_v = (key, cols) # rest"
    by (auto split: sum.splits)
  note c = read_rows_contains[OF assms(2), of key]
  note ul = h_update_loop_eq[OF assms(1,2), where key = key and items = cols and update = "[]" and ne = ne]
  show ?case
  proof (cases "contains a_rows key")
    case False
    have "read_list h (ins @ [row]) = Inr (ins_v @ [cols])"
      using Cons.prems(2) row by (rule read_list_snoc)
    from Cons.IH[OF rest this, of upd] show ?thesis
      using False c p iv assms(1) by (auto split: sum.splits)
  next
    case True
    show ?thesis
    proof (cases "update_loop ne a_table_v key cols []")
      case (Inl e)
      then show ?thesis using True c p iv assms(1) row ul by simp
    next
      case (Inr update)
      show ?thesis
      proof (cases "update = []")
        case empty: True
        from Cons.IH[OF rest Cons.prems(2), of upd] show ?thesis
          using True c p iv assms(1) row ul Inr empty by (auto split: sum.splits)
      next
        case False
        show ?thesis
        proof (cases "getitem pkeys t")
          case (Inl e)
          then show ?thesis using True c p iv assms(1) row ul Inr False by simp
        next
          case pk: (Inr pkey)
          show ?thesis
          proof (cases "getitem cols pkey")
            case (Inl e)
            then show ?thesis using True c p iv assms(1) row ul Inr False pk by simp
          next
            case v: (Inr v)
            from Cons.IH[OF rest Cons.prems(2), of "upd @ [setitem update pkey v]"]
            show ?thesis
              using True c p iv assms(1) row ul Inr False pk v by (auto split: sum.splits)
          qed
        qed
      qed
    qed
  qed
qed

lemma h_a_table_loop_eq:
  assumes "get_table h b_table = Inr b_rows" and "read_rows h b_rows = Inr b_table_v"
    and "read_rows h items = Inr items_v" and "read_list h del = Inr del_v"
  shows "\<exists>del'. h_a_table_loop h b_table items del = Inr del' \<and>
           read_list h del' = Inr (a_table_loop b_table_v items_v del_v) \<and>
           set del' \<subseteq> set del \<union> snd ` set items"
  using assms(3,4)
proof (induction items arbitrary: items_v del del_v)
  case Nil
  then show ?case by simp
next
  case (Cons p items)
  obtain key row where p: "p = (key, row)" by (cases p)
  from Cons.prems(1) p obtain cols rest where
    row: "get_row h row = Inr cols" and rest: "read_rows h items = Inr rest"
    and iv: "items_v = (key, cols) # rest"
    by (auto split: sum.splits)
  note c = read_rows_contains[OF assms(2), of key]
  show ?case
  proof (cases "contains b_rows key")
    case True
    from Cons.IH[OF rest Cons.prems(2)] show ?thesis
      using True c p iv assms(1) by auto
  next
    case False
    have "read_list h (del @ [row]) = Inr (del_v @ [cols])"
      using Cons.prems(2) row by (rule read_list_snoc)
    from Cons.IH[OF rest this] show ?thesis
      using False c p iv assms(1) by auto
  qed
qed

lemma read_out_setitem:
  "read_out h out = Inr out_v \<Longrightarrow> read_changes h c = Inr c_v \<Longrightarrow>
     read_out h (setitem out t c) = Inr (setitem out_v t c_v)"
  by (induction out arbitrary: out_v) (auto simp: setitem_def split: sum.splits)

lemma setitem_set: "set (setitem d k v) \<subseteq> insert (k, v) (set d)"
  by (induction d) (auto simp: setitem_def)

lemma out_refs_setitem:
  "set (out_refs (setitem out t c)) \<subseteq> set (out_refs out) \<union> set (refs_of c)"
proof
  fix r assume "r \<in> set (out_refs (setitem out t c))"
  then obtain t' c' where m: "(t', c') \<in> set (setitem out t c)" and r: "r \<in> set (refs_of c')"
    by (auto simp: out_refs_def)
  from m setitem_set[of out t c] have "(t', c') = (t, c) \<or> (t', c') \<in> set out" by auto
  then show "r \<in> set (out_refs out) \<union> set (refs_of c)"
    using r by (auto simp: out_refs_def)
qed

lemma read_list_length: "read_list h rs = Inr rows \<Longrightarrow> length rows = length rs"
  by (induction rs arbitrary: rows) (auto split: sum.splits)

lemma read_list_Nil: "read_list h rs = Inr rows \<Longrightarrow> (rows = []) = (rs = [])"
  by (cases rs) (auto split: sum.splits)

lemma read_tables_member:
  "read_tables h ts = Inr d \<Longrightarrow> getitem ts t = Inr r \<Longrightarrow> \<exists>table. read_table h r = Inr table"
  by (induction ts arbitrary: d) (auto simp: getitem_def split: sum.splits if_splits)

lemma read_table_D:
  "read_table h r = Inr table \<Longrightarrow> \<exists>rows. get_table h r = Inr rows \<and> read_rows h rows = Inr table"
  by (auto simp: read_table_def split: sum.splits)

lemma h_b_loop_eq:
  assumes a: "get_dump h a = Inr a_tables" and av: "read_tables h a_tables = Inr a_v"
    and ra: "set (table_refs h a_tables) \<subseteq> R"
    and "read_tables h items = Inr items_v" and "read_out h out = Inr out_v"
    and "set (table_refs h items) \<subseteq> R" and "set (out_refs out) \<subseteq> R"
  shows "case b_loop ne pkeys a_v compact items_v out_v of
           Inl e \<Rightarrow> h_b_loop ne h pkeys a compact items out = Inl e
         | Inr out_v' \<Rightarrow>
             (\<exists>out'. h_b_loop ne h pkeys a compact items out = Inr out' \<and>
                read_out h out' = Inr out_v' \<and> set (out_refs out') \<subseteq> R)"
  using assms(4-7)
proof (induction items arbitrary: items_v out out_v)
  case Nil
  then show ?case by simp
next
  case (Cons p items)
  obtain t b_table where p: "p = (t, b_table)" by (cases p)
  from Cons.prems(1) p obtain b_table_v rest where
    bt: "read_table h b_table = Inr b_table_v" and rest: "read_tables h items = Inr rest"
    and iv: "items_v = (t, b_table_v) # rest"
    by (auto split: sum.splits)
  from read_table_D[OF bt] obtain b_rows where
    gb: "get_table h b_table = Inr b_rows" and rb: "read_rows h b_rows = Inr b_table_v" by blast
  have refs_rest: "set (table_refs h items) \<subseteq> R" and refs_b: "snd ` set b_rows \<subseteq> R"
    using Cons.prems(3) p gb by auto
  note look = read_tables_getitem[OF av, of t]
  show ?case
  proof (cases "getitem a_tables t")
    case (Inl e)
    then show ?thesis using look p iv a by simp
  next
    case (Inr a_table)
    from read_tables_member[OF av Inr] obtain a_table_v where
      at: "read_table h a_table = Inr a_table_v" by blast
    from read_table_D[OF at] obtain a_rows where
      ga: "get_table h a_table = Inr a_rows" and rar: "read_rows h a_rows = Inr a_table_v"
      by blast
    have refs_a: "snd ` set a_rows \<subseteq> R"
      using read_tables_refs[OF Inr ga] ra by auto
    have va: "getitem a_v t = Inr a_table_v" using look Inr at by simp
    have nil: "read_list h [] = Inr []" by simp
    note bl = h_b_table_loop_eq[OF ga rar rb nil, where pkeys = pkeys and t = t and upd = "[]" and ne = ne]
    from h_a_table_loop_eq[OF gb rb rar nil] obtain del where
      hd: "h_a_table_loop h b_table a_rows [] = Inr del"
      and rd: "read_list h del = Inr (a_table_loop b_table_v a_table_v [])"
      and sd: "set del \<subseteq> snd ` set a_rows" by auto
    show ?thesis
    proof (cases "b_table_loop ne pkeys t a_table_v b_table_v [] []")
      case (Inl e)
      then show ?thesis using bl p iv a Inr gb va by simp
    next
      case res: (Inr r)
      obtain ins_v upd where r: "r = (ins_v, upd)" by (cases r)
      from bl res r obtain ins where
        hb: "h_b_table_loop ne h pkeys t a_table b_rows [] [] = Inr (ins, upd)"
        and ri: "read_list h ins = Inr ins_v" and si: "set ins \<subseteq> snd ` set b_rows"
        by auto
      let ?del_v = "a_table_loop b_table_v a_table_v []"
      have same: "(ins \<noteq> [] \<or> upd \<noteq> [] \<or> del \<noteq> []) = (ins_v \<noteq> [] \<or> upd \<noteq> [] \<or> ?del_v \<noteq> [])"
        using read_list_Nil[OF ri] read_list_Nil[OF rd] by simp
      show ?thesis
      proof (cases "ins_v \<noteq> [] \<or> upd \<noteq> [] \<or> ?del_v \<noteq> []")
        case False
        have v_step: "b_loop ne pkeys a_v compact items_v out_v = b_loop ne pkeys a_v compact rest out_v"
          using False iv va res r by (simp add: Let_def)
        have h_step: "h_b_loop ne h pkeys a compact (p # items) out =
            h_b_loop ne h pkeys a compact items out"
          using False same p a Inr gb hb ga hd by simp
        show ?thesis unfolding v_step h_step
          by (rule Cons.IH[OF rest Cons.prems(2) refs_rest Cons.prems(4)])
      next
        case True
        define c where "c = (if compact then HCounts [length ins, length upd, length del]
                  else HChanges ins upd del)"
        define c_v where "c_v = (if compact then Counts [length ins_v, length upd, length ?del_v]
                  else Changes ins_v upd ?del_v)"
        have rc: "read_changes h c = Inr c_v"
          using ri rd read_list_length[OF ri] read_list_length[OF rd] by (simp add: c_def c_v_def)
        have ro: "read_out h (setitem out t c) = Inr (setitem out_v t c_v)"
          using Cons.prems(2) rc by (rule read_out_setitem)
        have "set (refs_of c) \<subseteq> R" using si sd refs_a refs_b by (auto simp: c_def)
        then have so: "set (out_refs (setitem out t c)) \<subseteq> R"
          using out_refs_setitem[of out t c] Cons.prems(4) by blast
        have v_step: "b_loop ne pkeys a_v compact items_v out_v =
            b_loop ne pkeys a_v compact rest (setitem out_v t c_v)"
          using True iv va res r by (simp add: Let_def c_v_def)
        have h_step: "h_b_loop ne h pkeys a compact (p # items) out =
            h_b_loop ne h pkeys a compact items (setitem out t c)"
          using True same p a Inr gb hb ga hd by (simp add: c_def)
        show ?thesis unfolding v_step h_step
          by (rule Cons.IH[OF rest ro refs_rest so])
      qed
    qed
  qed
qed

lemma read_dump_D:
  "read_dump h r = Inr d \<Longrightarrow> \<exists>ts. get_dump h r = Inr ts \<and> read_tables h ts = Inr d"
  by (auto simp: read_dump_def split: sum.splits)

lemma h_u_diff_eq:
  assumes "read_dump h a = Inr a_v" and "read_dump h b = Inr b_v"
  shows "case u_diff ne db s a_v b_v compact of
           Inl e \<Rightarrow> h_u_diff ne db s h a b compact = Inl e
         | Inr out_v \<Rightarrow>
             (\<exists>out. h_u_diff ne db s h a b compact = Inr out \<and> read_out h out = Inr out_v \<and>
                set (out_refs out) \<subseteq> set (row_refs h a) \<union> set (row_refs h b))"
proof -
  from read_dump_D[OF assms(1)] obtain a_tables where
    ga: "get_dump h a = Inr a_tables" and ra: "read_tables h a_tables = Inr a_v" by blast
  from read_dump_D[OF assms(2)] obtain b_tables where
    gb: "get_dump h b = Inr b_tables" and rb: "read_tables h b_tables = Inr b_v" by blast
  let ?R = "set (row_refs h a) \<union> set (row_refs h b)"
  have k: "keys a_v = keys a_tables" "keys b_v = keys b_tables"
    using ra rb by (simp_all add: read_tables_keys)
  show ?thesis
  proof (cases "u_get_primary_keys db s")
    case (Inl e)
    then show ?thesis by (simp add: u_diff_def h_u_diff_def)
  next
    case (Inr pkeys)
    have "case b_loop ne pkeys a_v compact b_v [] of
           Inl e \<Rightarrow> h_b_loop ne h pkeys a compact b_tables [] = Inl e
         | Inr out_v' \<Rightarrow>
             (\<exists>out'. h_b_loop ne h pkeys a compact b_tables [] = Inr out' \<and>
                read_out h out' = Inr out_v' \<and> set (out_refs out') \<subseteq> ?R)"
      using ga gb by (intro h_b_loop_eq[OF ga ra _ rb]) (simp_all add: row_refs_def out_refs_def)
    then show ?thesis using Inr ga gb k
      by (cases "sort (keys a_tables) = sort (keys b_tables)";
          cases "b_loop ne pkeys a_v compact b_v []")
         (simp_all add: u_diff_def h_u_diff_def)
  qed
qed

lemma h_diff_step:
  assumes a0: "self_a self = Some a0" and rd: "read_dump h a0 = Inr a_v"
    and run: "h_diff ne db self h compact = (res, self', h')"
  shows "self' = self \<and> (\<exists>ext. h' = h @ ext) \<and> read_dump h' a0 = Inr a_v \<and>
         read_result h' res = fst (diff ne db \<lparr>self_db = self_db self, self_a = Some a_v\<rparr> compact) \<and>
         (\<forall>out. res = Inr out \<longrightarrow> (\<forall>r\<in>set (out_refs out). length h \<le> r))"
proof -
  obtain a h1 where sd: "store_dump a_v h = (a, h1)" by force
  from store_dump_ok[OF sd] obtain ext1 where
    e1: "h1 = h @ ext1" and r1: "read_dump h1 a = Inr a_v"
    and f1: "\<forall>p\<in>set (row_refs h1 a). length h \<le> p" by blast
  have dc: "h_deepcopy h a0 = (Inr a, h1)" using rd sd by (simp add: h_deepcopy_def)
  show ?thesis
  proof (cases "dump db (self_db self)")
    case (Inl e)
    then have "res = Inl e" "self' = self" "h' = h1"
      using run a0 dc by (auto simp: h_diff_def)
    then show ?thesis
      using e1 rd Inl by (auto simp: read_dump_ext read_result_def diff_def deepcopy_def)
  next
    case (Inr b_v)
    obtain b h2 where sb: "store_dump b_v h1 = (b, h2)" by force
    from store_dump_ok[OF sb] obtain ext2 where
      e2: "h2 = h1 @ ext2" and r2: "read_dump h2 b = Inr b_v"
      and f2: "\<forall>p\<in>set (row_refs h2 b). length h1 \<le> p" by blast
    have res: "res = h_u_diff ne db (self_db self) h2 a b compact" "self' = self" "h' = h2"
      using run a0 dc Inr sb by (auto simp: h_diff_def)
    have ra2: "read_dump h2 a = Inr a_v" using r1 e2 by (simp add: read_dump_ext)
    have refs_a: "row_refs h2 a = row_refs h1 a"
    proof -
      from read_dump_D[OF r1] obtain ts where
        "get_dump h1 a = Inr ts" "read_tables h1 ts = Inr a_v" by blast
      then show ?thesis
        unfolding e2 by (simp add: row_refs_def get_ext table_refs_ext)
    qed
    have bound: "\<forall>p\<in>set (row_refs h2 a) \<union> set (row_refs h2 b). length h \<le> p"
      using f1 f2 refs_a e1 by auto
    have val: "fst (diff ne db \<lparr>self_db = self_db self, self_a = Some a_v\<rparr> compact) =
        u_diff ne db (self_db self) a_v b_v compact"
      using Inr by (simp add: diff_def deepcopy_def)
    note eq = h_u_diff_eq[OF ra2 r2, where db = db and s = "self_db self" and compact = compact and ne = ne]
    have "read_result h' res = u_diff ne db (self_db self) a_v b_v compact \<and>
         (\<forall>out. res = Inr out \<longrightarrow> (\<forall>r\<in>set (out_refs out). length h \<le> r))"
    proof (cases "u_diff ne db (self_db self) a_v b_v compact")
      case (Inl e)
      then show ?thesis using eq res by (simp add: read_result_def)
    next
      case out: (Inr out_v)
      with eq obtain out where
        "h_u_diff ne db (self_db self) h2 a b compact = Inr out" "read_out h2 out = Inr out_v"
        "set (out_refs out) \<subseteq> set (row_refs h2 a) \<union> set (row_refs h2 b)"
        by auto
      then show ?thesis using out res bound by (auto simp: read_result_def)
    qed
    moreover have "read_dump h' a0 = Inr a_v"
      using rd e1 e2 res by (simp add: read_dump_ext)
    moreover have "\<exists>ext. h' = h @ ext" using e1 e2 res by simp
    ultimately show ?thesis using res val by simp
  qed
qed

lemma h_diff_total: "\<exists>res self' h'. h_diff ne db self h compact = (res, self', h')"
  by (cases "h_diff ne db self h compact") auto

lemma h_diff_iterated:
  assumes "self_a self = Some a0" and "read_dump h a0 = Inr a_v"
  shows "\<exists>h'. ((\<lambda>(self, h). snd (h_diff ne db self h compact)) ^^ n) (self, h) = (self, h') \<and>
           (\<exists>ext. h' = h @ ext) \<and> read_dump h' a0 = Inr a_v"
proof (induction n)
  case 0
  then show ?case using assms by simp
next
  case (Suc n)
  then obtain h1 ext1 where
    it: "((\<lambda>(self, h). snd (h_diff ne db self h compact)) ^^ n) (self, h) = (self, h1)"
    and e1: "h1 = h @ ext1" and r1: "read_dump h1 a0 = Inr a_v" by blast
  obtain res self' h2 where run: "h_diff ne db self h1 compact = (res, self', h2)"
    using h_diff_total by blast
  from h_diff_step[OF assms(1) r1 run] obtain ext2 where
    "self' = self" "h2 = h1 @ ext2" "read_dump h2 a0 = Inr a_v" by blast
  then show ?case using it e1 run by simp
qed

lemma h_call_baseline:
  assumes "h_call db self0 h0 data = (Inr (), self, h)"
  shows "\<exists>a0 d. self_a self = Some a0 \<and> read_dump h a0 = Inr d \<and> dump db (self_db self) = Inr d"
proof -
  from assms obtain table_name s d r where
    "call_loop db (u_get_table_names db (self_db self0)) [] data (self_db self0) = (Inr table_name, s)"
    and d: "dump db s = Inr d" and st: "store_dump d h0 = (r, h)"
    and self: "self = self0\<lparr>self_db := s, self_a := Some r\<rparr>"
    by (auto simp: h_call_def split: prod.splits sum.splits)
  from store_dump_ok(2)[OF st] d self show ?thesis by simp
qed

lemma widgets_h_call:
  "h_call widgets_db \<lparr>self_db = [], self_a = None\<rparr> []
       [Str ''widgets'', Dict [(''name'', ''A''), (''id'', ''1'')]] =
     (Inr (), loaded, loaded_heap)"
  by (simp add: h_call_def widgets_dump widgets_db_simps colname_re_match_def
      colname_char_def less_eq_char_def insert_sql_def store_dump_def alloc_def loaded_def
      loaded_heap_def)

lemma loaded_read: "read_dump loaded_heap 2 = Inr [(''widgets'', [(''1'', widget ''1'' ''A'')])]"
  by (simp add: loaded_heap_def read_dump_def get_dump_def read_table_def get_table_def
      get_row_def)

lemma widgets_diff_same:
  "fst (diff str_ne widgets_db
          \<lparr>self_db = s, self_a = Some [(''widgets'', [(''1'', widget ''1'' ''A'')])]\<rparr> False) =
     Inr []"
  by (simp add: diff_def deepcopy_def widgets_dump u_diff_def widgets_pkeys keys_def
      getitem_def contains_def widget_def str_ne_def)


section \<open>The claims about \<^verbatim>\<open>_diff\<close>\<close>

text \<open>
  \<^verbatim>\<open>_diff\<close> reads the primary keys from the database before it looks at the dumps, so
  the theorems are about a database on which \<^verbatim>\<open>_get_primary_keys\<close> returns a mapping,
  named \<open>pkeys\<close>.
\<close>

text \<open>
  C5 does not hold for every dump. The columns are compared with \<^verbatim>\<open>!=\<close>, and a NaN
  differs from itself: the comparison of the dump \<open>priced\<close> with itself returns an update of
  its row, so the table has an entry.
\<close>

theorem diff_identity_counterexample:
  "is_snapshot priced \<and>
   u_get_primary_keys priced_db [] = Inr [(''widgets'', ''id'')] \<and>
   u_diff number_ne priced_db [] priced priced False =
     Inr [(''widgets'', Changes [] [[(''price'', NaN), (''id'', Number 1)]] [])]"
  by (simp add: is_snapshot_def is_dict_def priced_def priced_db_def u_diff_def
      u_get_primary_keys_def recording_db_def widgets_index_def extract_pkey_def index_def
      keys_def getitem_def contains_def setitem_def)

text \<open>
  C5, amended. Let \<^verbatim>\<open>_get_primary_keys\<close> return a mapping, and let the dump be well
  formed and hold no column value that differs from itself by \<^verbatim>\<open>!=\<close> (no NaN). Comparing
  the dump with itself, with \<^verbatim>\<open>compact\<close> false, returns the empty dictionary: no table
  has an insert, an update or a delete, and a table without any gets no entry.
\<close>

theorem diff_identity:
  assumes "u_get_primary_keys db s = Inr pkeys" and "is_snapshot d"
    and "\<forall>(table_name, table)\<in>set d. \<forall>(key, row)\<in>set table.
           \<forall>(colname, value)\<in>set row. \<not> ne value value"
  shows "u_diff ne db s d d False = Inr []"
proof -
  have "b_loop ne pkeys d False d [] = Inr []"
    using is_snapshotD[OF assms(2)] assms(3) by (intro b_loop_same) auto
  then show ?thesis using assms(1) by (simp add: u_diff_def)
qed

theorem diff_identity_witness:
  "u_get_primary_keys widgets_db [] = Inr [(''widgets'', ''id'')] \<and> is_snapshot widgets_a \<and>
   u_diff str_ne widgets_db [] widgets_a widgets_a False = Inr []"
proof -
  have pk: "u_get_primary_keys widgets_db [] = Inr [(''widgets'', ''id'')]"
    by (rule widgets_pkeys)
  have refl: "\<forall>(table_name, table)\<in>set widgets_a. \<forall>(key, row)\<in>set table.
           \<forall>(colname, value)\<in>set row. \<not> str_ne value value"
    by (simp add: widgets_a_def widget_def str_ne_def)
  from diff_identity[where ne = str_ne, OF pk widgets_snapshots(1) refl] pk widgets_snapshots(1)
  show ?thesis by simp
qed

text \<open>
  C6. The comparison of the table names is the source's \<^verbatim>\<open>assert\<close>, and the error the
  specification calls SchemaDriftError is its \<^verbatim>\<open>AssertionError\<close>. For two dictionaries
  \<^verbatim>\<open>_diff\<close> raises it exactly when their sets of table names differ; when the sets are
  equal the result is a diff or an error of the row comparison, never this one.
\<close>

theorem diff_schema_drift:
  assumes "u_get_primary_keys db s = Inr pkeys" and "is_dict a" and "is_dict b"
  shows "(u_diff ne db s a b compact = Inl AssertionError) = (set (keys a) \<noteq> set (keys b))"
proof -
  have eq: "(sort (keys a) = sort (keys b)) = (set (keys a) = set (keys b))"
    using assms(2,3) by (intro sort_keys_eq) (simp_all add: is_dict_def keys_def)
  have "b_loop ne pkeys a compact b [] \<noteq> Inl AssertionError"
    using b_loop_error[of ne pkeys a compact b "[]" AssertionError] by auto
  then show ?thesis using assms(1) eq by (simp add: u_diff_def)
qed

theorem diff_schema_drift_witness:
  "u_get_primary_keys widgets_db [] = Inr [(''widgets'', ''id'')] \<and>
   is_dict widgets_a \<and> is_dict [(''gadgets'', [] :: string table)] \<and> is_dict widgets_b \<and>
   u_diff str_ne widgets_db [] widgets_a [(''gadgets'', [])] False = Inl AssertionError \<and>
   u_diff str_ne widgets_db [] widgets_a widgets_b False \<noteq> Inl AssertionError"
proof -
  have pk: "u_get_primary_keys widgets_db [] = Inr [(''widgets'', ''id'')]"
    by (rule widgets_pkeys)
  have a: "is_dict widgets_a" and b: "is_dict widgets_b"
    by (simp_all add: is_dict_def widgets_a_def widgets_b_def)
  have g: "is_dict [(''gadgets'', [] :: string table)]" by (simp add: is_dict_def)
  have "u_diff str_ne widgets_db [] widgets_a [(''gadgets'', [])] False = Inl AssertionError"
    using diff_schema_drift[OF pk a g, where compact = False and ne = str_ne]
    by (simp add: keys_def widgets_a_def)
  moreover have "u_diff str_ne widgets_db [] widgets_a widgets_b False \<noteq> Inl AssertionError"
    using diff_schema_drift[OF pk a b, where compact = False and ne = str_ne]
    by (simp add: keys_def widgets_a_def widgets_b_def)
  ultimately show ?thesis using pk a b g by simp
qed

text \<open>
  C9. The compact diff is the diff with every entry replaced by the lengths of its inserts,
  updates and deletes, in that order: the same tables have an entry, in the same order, and
  the two calls raise the same errors. Every entry of the diff that is not compact holds the
  three sequences.
\<close>

theorem diff_compact_agrees:
  "u_diff ne db s a b True =
     (case u_diff ne db s a b False of
        Inl e \<Rightarrow> Inl e
      | Inr out \<Rightarrow> Inr (map (\<lambda>(table_name, c). (table_name, counts_of c)) out)) \<and>
   (\<forall>out. u_diff ne db s a b False = Inr out \<longrightarrow>
      list_all (\<lambda>(table_name, c). is_Changes c) out)"
proof -
  have "b_loop ne pkeys a True b [] =
     (case b_loop ne pkeys a False b [] of
        Inl e \<Rightarrow> Inl e
      | Inr out' \<Rightarrow> Inr (map (\<lambda>(t, c). (t, counts_of c)) out'))" for pkeys
    using b_loop_compact[where pkeys = pkeys and a = a and items = b and out = "[]" and ne = ne] by simp
  then have 1: "u_diff ne db s a b True =
     (case u_diff ne db s a b False of
        Inl e \<Rightarrow> Inl e
      | Inr out \<Rightarrow> Inr (map (\<lambda>(table_name, c). (table_name, counts_of c)) out))"
    by (simp add: u_diff_def split: sum.splits)
  have 2: "list_all (\<lambda>(table_name, c). is_Changes c) out"
    if "u_diff ne db s a b False = Inr out" for out
  proof -
    from that obtain pkeys where "b_loop ne pkeys a False b [] = Inr out"
      by (auto simp: u_diff_def split: sum.splits if_splits)
    from b_loop_Changes[OF this] show ?thesis by (auto simp: list_all_iff)
  qed
  from 1 2 show ?thesis by blast
qed

theorem diff_compact_agrees_witness:
  "u_diff str_ne widgets_db [] widgets_a widgets_b False =
     Inr [(''widgets'',
           Changes [widget ''4'' ''D''] [[(''name'', ''Z''), (''id'', ''2'')]] [widget ''3'' ''C''])] \<and>
   u_diff str_ne widgets_db [] widgets_a widgets_b True = Inr [(''widgets'', Counts [1, 1, 1])]"
  using diff_compact_agrees[of str_ne widgets_db "[]" widgets_a widgets_b]
  by (simp add: widgets_diff)

text \<open>
  C10. Only the table names of the two dumps are compared. When the table names agree and
  some row of the second dump has a column that the row with the same key in the first dump
  lacks, \<^verbatim>\<open>a_table[key][colname]\<close> raises and \<^verbatim>\<open>_diff\<close> ends with \<^verbatim>\<open>KeyError\<close>; the
  example is such a pair of dumps.
\<close>

theorem diff_missing_column_KeyError:
  assumes "u_get_primary_keys db s = Inr pkeys"
    and "sort (keys a) = sort (keys b)"
    and "(t, b_table) \<in> set b" and "map_of a t = Some a_table"
    and "(key, row) \<in> set b_table" and "map_of a_table key = Some a_row"
    and "contains row c" and "\<not> contains a_row c"
  shows "u_diff ne db s a b compact = Inl KeyError"
proof -
  have "c \<in> fst ` set row" using assms(7) by (auto simp: contains_def map_of_eq_None_iff)
  moreover have "map_of a_row c = None" using assms(8) by (simp add: contains_def)
  ultimately have "b_loop ne pkeys a compact b [] = Inl KeyError"
    using assms(3-6) by (intro b_loop_missing)
  then show ?thesis using assms(1,2) by (simp add: u_diff_def)
qed

theorem diff_missing_column_KeyError_witness:
  "u_get_primary_keys widgets_db [] = Inr [(''widgets'', ''id'')] \<and>
   is_snapshot widgets_narrow \<and> is_snapshot [(''widgets'', [(''1'', widget ''1'' ''A'')])] \<and>
   set (keys widgets_narrow) = set (keys [(''widgets'', [(''1'', widget ''1'' ''A'')])]) \<and>
   contains (widget ''1'' ''A'') ''name'' \<and> \<not> contains [(''id'', ''1'')] ''name'' \<and>
   u_diff str_ne widgets_db [] widgets_narrow [(''widgets'', [(''1'', widget ''1'' ''A'')])] False =
     Inl KeyError"
proof -
  let ?b_table = "[(''1'', widget ''1'' ''A'')]"
  let ?b = "[(''widgets'', ?b_table)]"
  have pk: "u_get_primary_keys widgets_db [] = Inr [(''widgets'', ''id'')]"
    by (rule widgets_pkeys)
  have names: "sort (keys widgets_narrow) = sort (keys ?b)"
    by (simp add: keys_def widgets_narrow_def)
  have t: "(''widgets'', ?b_table) \<in> set ?b" by simp
  have a_table: "map_of widgets_narrow ''widgets'' = Some [(''1'', [(''id'', ''1'')])]"
    by (simp add: widgets_narrow_def)
  have row: "(''1'', widget ''1'' ''A'') \<in> set ?b_table" by simp
  have a_row: "map_of [(''1'', [(''id'', ''1'')])] ''1'' = Some [(''id'', ''1'')]" by simp
  have c: "contains (widget ''1'' ''A'') ''name''" "\<not> contains [(''id'', ''1'')] ''name''"
    by (simp_all add: contains_def widget_def)
  have "u_diff str_ne widgets_db [] widgets_narrow ?b False = Inl KeyError"
    by (rule diff_missing_column_KeyError[OF pk names t a_table row a_row c])
  then show ?thesis using pk c
    by (simp add: is_snapshot_def is_dict_def keys_def widget_def widgets_narrow_def)
qed

text \<open>
  C1 does not hold for every pair of dumps with the same table names. \<^verbatim>\<open>_diff\<close> walks the
  columns of the row of B and looks each up in the row of A with the same key. When the row
  of A has a column more than the row of B (\<open>widgets_wide\<close> against \<open>widgets_narrow\<close>), the
  two rows differ, yet no update is reported and the diff is empty; the other way round the
  lookup raises \<^verbatim>\<open>KeyError\<close> and nothing is classified.
\<close>

theorem diff_classification_counterexample:
  "is_snapshot widgets_wide \<and> is_snapshot widgets_narrow \<and>
   set (keys widgets_wide) = set (keys widgets_narrow) \<and>
   map_of widgets_wide ''widgets'' = Some [(''1'', [(''id'', ''1''), (''name'', ''A'')])] \<and>
   map_of widgets_narrow ''widgets'' = Some [(''1'', [(''id'', ''1'')])] \<and>
   u_diff str_ne widgets_db [] widgets_wide widgets_narrow False = Inr [] \<and>
   u_diff str_ne widgets_db [] widgets_narrow widgets_wide False = Inl KeyError"
  by (simp add: is_snapshot_def is_dict_def widgets_wide_def widgets_narrow_def widget_def
      u_diff_def widgets_pkeys keys_def getitem_def contains_def setitem_def str_ne_def)

text \<open>
  C1, amended. Let \<^verbatim>\<open>_get_primary_keys\<close> return a mapping, let the two dumps be well
  formed with the same table names, and let, for every row of B whose key the same table of A
  has, the row have no column that the row of A lacks (as when the two rows have the same
  columns) and have the column that is the primary key of its table. Then \<^verbatim>\<open>_diff\<close>
  returns a diff, and in it, for every table: the inserts are the rows of B whose key A
  lacks, each whole, in the order of B; the deletes are the rows of A whose key B lacks, each
  whole, in the order of A; the updates are, in the order of B, one record for each row of B
  whose key A has and in which some column has a value that differs, by \<^verbatim>\<open>!=\<close>, from the
  value the row of A gives that column (\<open>row_changed\<close>), that record being \<open>update_of\<close> the
  row; a row of B whose key A has and in which no column differs so gives nothing. The table
  has an entry exactly when one of the three is not empty, and a name that is no table of B
  has none.
\<close>

theorem diff_classification:
  assumes "u_get_primary_keys db s = Inr pkeys"
    and "is_snapshot a" and "is_snapshot b"
    and "set (keys a) = set (keys b)"
    and "\<forall>(t, b_table)\<in>set b. \<forall>(key, row)\<in>set b_table. \<forall>a_table a_row.
         map_of a t = Some a_table \<and> map_of a_table key = Some a_row \<longrightarrow>
         set (keys row) \<subseteq> set (keys a_row) \<and>
         (\<exists>pkey. map_of pkeys t = Some pkey \<and> contains row pkey)"
  shows
    "\<exists>out. u_diff ne db s a b False = Inr out \<and>
       (\<forall>t. map_of b t = None \<longrightarrow> map_of out t = None) \<and>
       (\<forall>t b_table. map_of b t = Some b_table \<longrightarrow>
          (\<exists>a_table upd.
             map_of a t = Some a_table \<and>
             map Some upd =
               map (update_of ne pkeys t a_table) (filter (row_changed ne a_table) b_table) \<and>
             (\<forall>(key, row)\<in>set b_table. \<forall>a_row. map_of a_table key = Some a_row \<longrightarrow>
                row_changed ne a_table (key, row) =
                  (\<exists>c a_value value. map_of a_row c = Some a_value \<and>
                     map_of row c = Some value \<and> ne a_value value)) \<and>
             map_of out t =
               (if map snd (filter (\<lambda>(key, row). \<not> contains a_table key) b_table) = [] \<and>
                   upd = [] \<and>
                   map snd (filter (\<lambda>(key, row). \<not> contains b_table key) a_table) = []
                then None
                else Some (Changes
                       (map snd (filter (\<lambda>(key, row). \<not> contains a_table key) b_table))
                       upd
                       (map snd (filter (\<lambda>(key, row). \<not> contains b_table key) a_table))))))"
proof -
  from diff_succeeds[OF assms] obtain out where out: "u_diff ne db s a b False = Inr out"
    by blast
  have none: "map_of out t = None" if "map_of b t = None" for t
    using diff_table_entry(1)[OF assms(1,3) out that] .
  have some: "\<exists>a_table upd.
             map_of a t = Some a_table \<and>
             map Some upd =
               map (update_of ne pkeys t a_table) (filter (row_changed ne a_table) b_table) \<and>
             (\<forall>(key, row)\<in>set b_table. \<forall>a_row. map_of a_table key = Some a_row \<longrightarrow>
                row_changed ne a_table (key, row) =
                  (\<exists>c a_value value. map_of a_row c = Some a_value \<and>
                     map_of row c = Some value \<and> ne a_value value)) \<and>
             map_of out t =
               (if map snd (filter (\<lambda>(key, row). \<not> contains a_table key) b_table) = [] \<and>
                   upd = [] \<and>
                   map snd (filter (\<lambda>(key, row). \<not> contains b_table key) a_table) = []
                then None
                else Some (Changes
                       (map snd (filter (\<lambda>(key, row). \<not> contains a_table key) b_table))
                       upd
                       (map snd (filter (\<lambda>(key, row). \<not> contains b_table key) a_table))))"
    if bt: "map_of b t = Some b_table" for t b_table
  proof -
    from diff_table_entry(2)[OF assms(1,3) out bt] obtain a_table upd where
      at: "map_of a t = Some a_table" and
      u: "map Some upd =
            map (update_of ne pkeys t a_table) (filter (row_changed ne a_table) b_table)" and
      c: "\<forall>(key, row)\<in>set b_table. \<forall>a_row. map_of a_table key = Some a_row \<longrightarrow>
            (\<forall>c\<in>fst ` set row. map_of a_row c \<noteq> None)" and
      e: "map_of out t =
               (if map snd (filter (\<lambda>(key, row). \<not> contains a_table key) b_table) = [] \<and>
                   upd = [] \<and>
                   map snd (filter (\<lambda>(key, row). \<not> contains b_table key) a_table) = []
                then None
                else Some (Changes
                       (map snd (filter (\<lambda>(key, row). \<not> contains a_table key) b_table))
                       upd
                       (map snd (filter (\<lambda>(key, row). \<not> contains b_table key) a_table))))"
      by blast
    have mem: "(t, b_table) \<in> set b" using bt by (rule map_of_SomeD)
    have r: "\<forall>(key, row)\<in>set b_table. \<forall>a_row. map_of a_table key = Some a_row \<longrightarrow>
                row_changed ne a_table (key, row) =
                  (\<exists>c a_value value. map_of a_row c = Some a_value \<and>
                     map_of row c = Some value \<and> ne a_value value)"
    proof (clarify)
      fix key row a_row
      assume kr: "(key, row) \<in> set b_table" and ar: "map_of a_table key = Some a_row"
      have d: "distinct (map fst row)" using is_snapshotD(3)[OF assms(3) mem kr] .
      have cols: "\<forall>c\<in>fst ` set row. map_of a_row c \<noteq> None" using c kr ar by blast
      have "(changed_columns ne a_row row \<noteq> []) =
          (fst ` set (changed_columns ne a_row row) \<noteq> {})" by simp
      also have "\<dots> = (\<exists>c a_value value. map_of a_row c = Some a_value \<and>
                     map_of row c = Some value \<and> ne a_value value)"
        unfolding keys_changed_columns[OF d cols] by blast
      finally show "row_changed ne a_table (key, row) =
                  (\<exists>c a_value value. map_of a_row c = Some a_value \<and>
                     map_of row c = Some value \<and> ne a_value value)"
        using ar by (simp add: row_changed_def)
    qed
    from at u r e show ?thesis by blast
  qed
  from out none some show ?thesis by blast
qed

theorem diff_classification_witness:
  "u_get_primary_keys widgets_db [] = Inr [(''widgets'', ''id'')] \<and>
   is_snapshot widgets_a \<and> is_snapshot widgets_b \<and>
   set (keys widgets_a) = set (keys widgets_b) \<and>
   (\<exists>out. u_diff str_ne widgets_db [] widgets_a widgets_b False = Inr out \<and>
      map_of out ''widgets'' =
        Some (Changes [widget ''4'' ''D''] [[(''name'', ''Z''), (''id'', ''2'')]]
                [widget ''3'' ''C'']))"
proof -
  have pk: "u_get_primary_keys widgets_db [] = Inr [(''widgets'', ''id'')]"
    by (rule widgets_pkeys)
  have names: "set (keys widgets_a) = set (keys widgets_b)"
    by (simp add: keys_def widgets_a_def widgets_b_def)
  have cols: "\<forall>(t, b_table)\<in>set widgets_b. \<forall>(key, row)\<in>set b_table. \<forall>a_table a_row.
         map_of widgets_a t = Some a_table \<and> map_of a_table key = Some a_row \<longrightarrow>
         set (keys row) \<subseteq> set (keys a_row) \<and>
         (\<exists>pkey. map_of [(''widgets'', ''id'')] t = Some pkey \<and> contains row pkey)"
    by (simp add: widgets_a_def widgets_b_def widget_def keys_def contains_def)
  have bt: "map_of widgets_b ''widgets'' =
      Some [(''1'', widget ''1'' ''A''), (''2'', widget ''2'' ''Z''), (''4'', widget ''4'' ''D'')]"
    by (simp add: widgets_b_def)
  from diff_classification[where ne = str_ne, OF pk widgets_snapshots names cols] bt
  obtain out a_table upd where
    out: "u_diff str_ne widgets_db [] widgets_a widgets_b False = Inr out" and
    at: "map_of widgets_a ''widgets'' = Some a_table" and
    upd: "map Some upd = map (update_of str_ne [(''widgets'', ''id'')] ''widgets'' a_table)
      (filter (row_changed str_ne a_table)
        [(''1'', widget ''1'' ''A''), (''2'', widget ''2'' ''Z''), (''4'', widget ''4'' ''D'')])" and
    entry: "map_of out ''widgets'' =
       (if map snd (filter (\<lambda>(key, row). \<not> contains a_table key)
             [(''1'', widget ''1'' ''A''), (''2'', widget ''2'' ''Z''), (''4'', widget ''4'' ''D'')]) = [] \<and>
           upd = [] \<and>
           map snd (filter (\<lambda>(key, row). \<not> contains
             [(''1'', widget ''1'' ''A''), (''2'', widget ''2'' ''Z''), (''4'', widget ''4'' ''D'')] key)
             a_table) = []
        then None
        else Some (Changes
               (map snd (filter (\<lambda>(key, row). \<not> contains a_table key)
                 [(''1'', widget ''1'' ''A''), (''2'', widget ''2'' ''Z''), (''4'', widget ''4'' ''D'')]))
               upd
               (map snd (filter (\<lambda>(key, row). \<not> contains
                 [(''1'', widget ''1'' ''A''), (''2'', widget ''2'' ''Z''), (''4'', widget ''4'' ''D'')] key)
                 a_table))))"
    by blast
  from at have a_table: "a_table =
      [(''1'', widget ''1'' ''A''), (''2'', widget ''2'' ''B''), (''3'', widget ''3'' ''C'')]"
    by (simp add: widgets_a_def)
  from upd have "map Some upd = [Some [(''name'', ''Z''), (''id'', ''2'')]]"
    by (simp add: a_table row_changed_def update_of_def changed_columns_def widget_def
        setitem_def str_ne_def)
  then have "upd = [[(''name'', ''Z''), (''id'', ''2'')]]" by auto
  with entry have "map_of out ''widgets'' =
        Some (Changes [widget ''4'' ''D''] [[(''name'', ''Z''), (''id'', ''2'')]]
                [widget ''3'' ''C''])"
    by (simp add: a_table contains_def)
  with out pk widgets_snapshots names show ?thesis by blast
qed

text \<open>
  C4. In a diff of a dump \<open>a\<close> and a well-formed dump \<open>b\<close>, every update record of a table
  belongs to a key that both tables have; its columns are exactly the columns to which the
  two rows give values that differ (by \<^verbatim>\<open>!=\<close>), together with the primary-key column
  of the table, and it gives each of them the value of the row of \<open>b\<close>. The primary-key column is there whether or
  not it is among the columns that differ.
\<close>

theorem diff_update_record:
  assumes "u_get_primary_keys db s = Inr pkeys"
    and "is_snapshot b"
    and "u_diff ne db s a b False = Inr out"
    and "map_of out t = Some (Changes ins upd del)"
    and "u \<in> set upd"
  shows "\<exists>a_table b_table key a_row row pkey.
     map_of a t = Some a_table \<and> map_of b t = Some b_table \<and>
     map_of a_table key = Some a_row \<and> map_of b_table key = Some row \<and>
     map_of pkeys t = Some pkey \<and>
     is_dict u \<and>
     set (keys u) =
       {c. \<exists>a_value value. map_of a_row c = Some a_value \<and> map_of row c = Some value \<and>
             ne a_value value} \<union> {pkey} \<and>
     (\<forall>c\<in>set (keys u). map_of u c = map_of row c)"
proof -
  obtain b_table where bt: "map_of b t = Some b_table"
    using diff_table_entry(1)[OF assms(1-3), of t] assms(4) by (cases "map_of b t") auto
  from diff_table_entry(2)[OF assms(1-3) bt] assms(4) obtain a_table where
    at: "map_of a t = Some a_table" and
    u: "map Some upd = map (update_of ne pkeys t a_table) (filter (row_changed ne a_table) b_table)" and
    c: "\<forall>(key, row)\<in>set b_table. \<forall>a_row. map_of a_table key = Some a_row \<longrightarrow>
            (\<forall>c\<in>fst ` set row. map_of a_row c \<noteq> None)"
    by (auto split: if_splits)
  have mem: "(t, b_table) \<in> set b" using bt by (rule map_of_SomeD)
  from assms(5) have "Some u \<in> set (map Some upd)" by simp
  with u obtain key row where r: "(key, row) \<in> set b_table"
    and uo: "update_of ne pkeys t a_table (key, row) = Some u"
    by auto
  from uo obtain a_row pkey v where ar: "map_of a_table key = Some a_row"
    and pk: "map_of pkeys t = Some pkey" and v: "map_of row pkey = Some v"
    and ueq: "u = setitem (changed_columns ne a_row row) pkey v"
    by (auto simp: update_of_def split: option.splits)
  have d: "distinct (map fst row)" using is_snapshotD(3)[OF assms(2) mem r] .
  have br: "map_of b_table key = Some row" using r is_snapshotD(2)[OF assms(2) mem] by simp
  have cols: "\<forall>c\<in>fst ` set row. map_of a_row c \<noteq> None" using c r ar by blast
  from update_record[OF d cols v] ueq at bt ar br pk show ?thesis by blast
qed

theorem diff_update_record_witness:
  "u_get_primary_keys widgets_db [] = Inr [(''widgets'', ''id'')] \<and> is_snapshot widgets_b \<and>
   u_diff str_ne widgets_db [] widgets_a widgets_b False =
     Inr [(''widgets'',
           Changes [widget ''4'' ''D''] [[(''name'', ''Z''), (''id'', ''2'')]] [widget ''3'' ''C''])] \<and>
   (\<exists>a_table b_table key a_row row pkey.
     map_of widgets_a ''widgets'' = Some a_table \<and> map_of widgets_b ''widgets'' = Some b_table \<and>
     map_of a_table key = Some a_row \<and> map_of b_table key = Some row \<and>
     map_of [(''widgets'', ''id'')] ''widgets'' = Some pkey \<and>
     is_dict [(''name'', ''Z''), (''id'', ''2'')] \<and>
     set (keys [(''name'', ''Z''), (''id'', ''2'')]) =
       {c. \<exists>a_value value. map_of a_row c = Some a_value \<and> map_of row c = Some value \<and>
             str_ne a_value value} \<union> {pkey})"
proof -
  have pk: "u_get_primary_keys widgets_db [] = Inr [(''widgets'', ''id'')]"
    by (rule widgets_pkeys)
  have e: "map_of [(''widgets'',
           Changes [widget ''4'' ''D''] [[(''name'', ''Z''), (''id'', ''2'')]] [widget ''3'' ''C''])]
      ''widgets'' =
     Some (Changes [widget ''4'' ''D''] [[(''name'', ''Z''), (''id'', ''2'')]] [widget ''3'' ''C''])"
    by simp
  have u: "[(''name'', ''Z''), (''id'', ''2'')] \<in> set [[(''name'', ''Z''), (''id'', ''2'')]]"
    by simp
  have "\<exists>a_table b_table key a_row row pkey.
     map_of widgets_a ''widgets'' = Some a_table \<and> map_of widgets_b ''widgets'' = Some b_table \<and>
     map_of a_table key = Some a_row \<and> map_of b_table key = Some row \<and>
     map_of [(''widgets'', ''id'')] ''widgets'' = Some pkey \<and>
     is_dict [(''name'', ''Z''), (''id'', ''2'')] \<and>
     set (keys [(''name'', ''Z''), (''id'', ''2'')]) =
       {c. \<exists>a_value value. map_of a_row c = Some a_value \<and> map_of row c = Some value \<and>
             str_ne a_value value} \<union> {pkey}"
    using diff_update_record[OF pk widgets_snapshots(2) widgets_diff e u]
    by (elim exE conjE) (intro exI conjI, assumption+)
  with pk widgets_snapshots(2) widgets_diff show ?thesis by (intro conjI)
qed


section \<open>The claims about introspection, loading, resetting and the baseline\<close>

text \<open>
  C7, amended. \<^verbatim>\<open>_get_primary_keys\<close> raises nothing like a SchemaError and rejects no
  composite key. When the catalogue query returns rows, it raises \<^verbatim>\<open>IndexError\<close>
  exactly when the index definition of some row has no \<^verbatim>\<open>(\<close>. Otherwise it returns a
  dictionary in which a table that no row names has no entry, and a table that some row names
  has \<open>between_parens\<close> of the index definition of the last row that names it: the text
  after the first \<^verbatim>\<open>(\<close> up to, and without, the next \<^verbatim>\<open>)\<close> or \<^verbatim>\<open>(\<close>, or up to
  the end of the definition when neither follows. For a primary key of several columns that
  text is the whole list of columns; for an index on an expression it is the text before the
  inner parenthesis (lemma \<open>between_parens_examples\<close>).
\<close>

theorem get_primary_keys_no_check:
  assumes "fetchall_pg_indexes db s = Some rows"
  shows "((\<exists>row\<in>set rows. CHR ''('' \<notin> set (indexdef row)) \<longrightarrow>
            u_get_primary_keys db s = Inl IndexError) \<and>
         ((\<forall>row\<in>set rows. CHR ''('' \<in> set (indexdef row)) \<longrightarrow>
            (\<exists>pkeys. u_get_primary_keys db s = Inr pkeys \<and> is_dict pkeys \<and>
               map_of pkeys =
                 map_of (rev (map (\<lambda>row. (tablename row, between_parens (indexdef row))) rows))))"
proof (intro conjI impI)
  assume "\<exists>row\<in>set rows. CHR ''('' \<notin> set (indexdef row)"
  then show "u_get_primary_keys db s = Inl IndexError"
    using assms by (simp add: u_get_primary_keys_def pkeys_loop_IndexError)
next
  assume "\<forall>row\<in>set rows. CHR ''('' \<in> set (indexdef row)"
  from pkeys_loop_ok[OF this, of "[]"] show "\<exists>pkeys. u_get_primary_keys db s = Inr pkeys \<and>
      is_dict pkeys \<and>
      map_of pkeys =
        map_of (rev (map (\<lambda>row. (tablename row, between_parens (indexdef row))) rows))"
    using assms by (auto simp: u_get_primary_keys_def is_dict_def)
qed

theorem get_primary_keys_no_check_witness:
  "fetchall_pg_indexes
     (recording_db None (Some [tips_index]) (\<lambda>t. None :: string row list option)) [] =
     Some [tips_index] \<and>
   (\<exists>pkeys. u_get_primary_keys
       (recording_db None (Some [tips_index]) (\<lambda>t. None :: string row list option)) [] = Inr pkeys \<and>
      map_of pkeys ''tips'' = Some ''tipper, tippee'')"
proof -
  let ?h = "recording_db None (Some [tips_index]) (\<lambda>t. None :: string row list option)"
  have f: "fetchall_pg_indexes ?h [] = Some [tips_index]" by (simp add: recording_db_def)
  have "\<forall>row\<in>set [tips_index]. CHR ''('' \<in> set (indexdef row)" by (simp add: tips_index_def)
  with get_primary_keys_no_check[OF f] obtain pkeys where
    "u_get_primary_keys ?h [] = Inr pkeys"
    "map_of pkeys = map_of (rev (map (\<lambda>row. (tablename row, between_parens (indexdef row))) [tips_index]))"
    by blast
  moreover have "between_parens (indexdef tips_index) = ''tipper, tippee''"
    by (simp add: between_parens_def tips_index_def)
  ultimately have "u_get_primary_keys ?h [] = Inr pkeys \<and> map_of pkeys ''tips'' = Some ''tipper, tippee''"
    by (simp add: tips_index_def)
  with f show ?thesis by blast
qed

text \<open>
  The claim C7 as stated fails: for the index of a two-column primary key no error is raised,
  and the entry of the table is the text \<open>''tipper, tippee''\<close>, which is not a column name.
\<close>

theorem get_primary_keys_composite_counterexample:
  "u_get_primary_keys (recording_db None (Some [tips_index]) (\<lambda>t. None :: string row list option)) [] =
     Inr [(''tips'', ''tipper, tippee'')]"
  by (simp add: u_get_primary_keys_def recording_db_def tips_index_def
      extract_pkey_def index_def setitem_def)

lemma between_parens_examples:
  "between_parens ''CREATE UNIQUE INDEX tips_pkey ON tips USING btree (tipper, tippee)'' =
     ''tipper, tippee''"
  "between_parens ''CREATE UNIQUE INDEX names_pkey ON names USING btree (lower(name))'' =
     ''lower''"
  "between_parens ''CREATE UNIQUE INDEX widgets_pkey ON widgets USING btree (id'' = ''id''"
  by (simp_all add: between_parens_def)

text \<open>
  What \<^verbatim>\<open>__call__\<close> does with a dictionary. Let the items before a record load without
  error and leave a current table, and let the record be a dictionary. If one of its column
  names is not matched by \<^verbatim>\<open>colname_re\<close>, \<^verbatim>\<open>__call__\<close> raises the
  \<^verbatim>\<open>ValueError\<close> of the column check (the error the specification calls
  InvalidIdentifierError), and the database is as the earlier items left it: nothing is
  executed for the record or after it. If all its column names are matched, one statement is
  executed for the record, on the database the earlier items left: its text is built from
  the table name, the column names in sorted order and one placeholder \<^verbatim>\<open>%s\<close> per
  column, and its parameters are the values of these columns in the same order; no value is
  part of the text.
\<close>

lemma call_column_names:
  assumes "call_loop db (u_get_table_names db (self_db self)) [] pre (self_db self) =
             (Inr table_name, s1)"
    and "table_name \<noteq> []"
    and "is_dict row"
  shows "(\<not> list_all colname_re_match (keys row) \<longrightarrow>
            call db self (pre @ Dict row # post) =
              (Inl (ValueError ''colname must match ^[A-Za-z0-9_]+$''), self\<lparr>self_db := s1\<rparr>)) \<and>
         (list_all colname_re_match (keys row) \<longrightarrow>
            (\<exists>vals. length vals = length row \<and>
               (\<forall>i<length row. map_of row (sort (keys row) ! i) = Some (vals ! i)) \<and>
               call_loop db (u_get_table_names db (self_db self)) [] (pre @ Dict row # post)
                   (self_db self) =
                 call_loop db (u_get_table_names db (self_db self)) table_name post
                   (execute db
                      (''INSERT INTO '' @ table_name @ '' ('' @ join '', '' (sort (keys row)) @
                         '') VALUES ('' @ join '', '' (replicate (length row) ''%s'') @ '')'')
                      vals s1)))"
proof (intro conjI impI)
  assume bad: "\<not> list_all colname_re_match (keys row)"
  have "call_loop db (u_get_table_names db (self_db self)) [] (pre @ Dict row # post) (self_db self) =
      (Inl (ValueError (''colname must match '' @ colname_re_pattern)), s1)"
    using assms(1,2) bad
    by (simp add: call_loop_append colnames_loop_eq all_sorted_colnames keys_def)
  then show "call db self (pre @ Dict row # post) =
              (Inl (ValueError ''colname must match ^[A-Za-z0-9_]+$''), self\<lparr>self_db := s1\<rparr>)"
    by (simp add: call_def colname_re_pattern_def)
next
  assume good: "list_all colname_re_match (keys row)"
  let ?vals = "map snd (sort_key fst row)"
  have "length ?vals = length row" by simp
  moreover have "\<forall>i<length row. map_of row (sort (keys row) ! i) = Some (?vals ! i)"
    using assms(3) by (simp add: is_dict_def keys_def sorted_items_values)
  moreover have "call_loop db (u_get_table_names db (self_db self)) [] (pre @ Dict row # post)
                   (self_db self) =
                 call_loop db (u_get_table_names db (self_db self)) table_name post
                   (execute db
                      (''INSERT INTO '' @ table_name @ '' ('' @ join '', '' (sort (keys row)) @
                         '') VALUES ('' @ join '', '' (replicate (length row) ''%s'') @ '')'')
                      ?vals s1)"
    using assms(1,2) good
    by (simp add: call_loop_append colnames_loop_eq all_sorted_colnames keys_def insert_sql_def
        map_fst_sort_key)
  ultimately show "\<exists>vals. length vals = length row \<and>
               (\<forall>i<length row. map_of row (sort (keys row) ! i) = Some (vals ! i)) \<and>
               call_loop db (u_get_table_names db (self_db self)) [] (pre @ Dict row # post)
                   (self_db self) =
                 call_loop db (u_get_table_names db (self_db self)) table_name post
                   (execute db
                      (''INSERT INTO '' @ table_name @ '' ('' @ join '', '' (sort (keys row)) @
                         '') VALUES ('' @ join '', '' (replicate (length row) ''%s'') @ '')'')
                      vals s1)"
    by blast
qed

lemma call_column_names_example:
  "call_loop widgets_db (u_get_table_names widgets_db []) [] [Str ''widgets''] [] =
     (Inr ''widgets'', []) \<and>
   is_dict [(''name'', ''A''), (''id'', ''1'')] \<and> is_dict [(''na me'', ''A'')] \<and>
   \<not> list_all colname_re_match (keys [(''na me'', ''A'')]) \<and>
   list_all colname_re_match (keys [(''name'', ''A''), (''id'', ''1'')]) \<and>
   call widgets_db \<lparr>self_db = [], self_a = None\<rparr>
       [Str ''widgets'', Dict [(''na me'', ''A'')], Dict [(''id'', ''2'')]] =
     (Inl (ValueError ''colname must match ^[A-Za-z0-9_]+$''), \<lparr>self_db = [], self_a = None\<rparr>) \<and>
   call_loop widgets_db [''widgets''] [] [Str ''widgets'', Dict [(''name'', ''A''), (''id'', ''1'')]] [] =
     (Inr ''widgets'', [(''INSERT INTO widgets (id, name) VALUES (%s, %s)'', [''1'', ''A''])])"
proof -
  let ?c = "\<lparr>self_db = [], self_a = None\<rparr> ::
    ((string \<times> string list) list, string snapshot) Context"
  let ?row = "[(''name'', ''A''), (''id'', ''1'')] :: string row"
  let ?bad = "[(''na me'', ''A'')] :: string row"
  have pre: "call_loop widgets_db (u_get_table_names widgets_db (self_db ?c)) [] [Str ''widgets'']
      (self_db ?c) = (Inr ''widgets'', [])"
    by (simp add: widgets_db_simps)
  have ne: "''widgets'' \<noteq> []" by simp
  have d: "is_dict ?row" "is_dict ?bad" by (simp_all add: is_dict_def)
  have bad: "\<not> list_all colname_re_match (keys ?bad)"
    by (simp add: keys_def colname_re_match_def colname_char_def less_eq_char_def)
  have good: "list_all colname_re_match (keys ?row)"
    by (simp add: keys_def colname_re_match_def colname_char_def less_eq_char_def)
  have srt: "sort (keys ?row) = [''id'', ''name'']"
    by (simp add: keys_def less_eq_char_def)
  have 1: "call widgets_db ?c [Str ''widgets'', Dict ?bad, Dict [(''id'', ''2'')]] =
     (Inl (ValueError ''colname must match ^[A-Za-z0-9_]+$''), ?c)"
    using call_column_names[OF pre ne d(2), of "[Dict [(''id'', ''2'')]]"] bad by simp
  from call_column_names[OF pre ne d(1), of "[]"] good obtain vals where
    len: "length vals = length ?row" and
    vs: "\<forall>i<length ?row. map_of ?row (sort (keys ?row) ! i) = Some (vals ! i)" and
    run: "call_loop widgets_db (u_get_table_names widgets_db (self_db ?c)) []
            ([Str ''widgets''] @ [Dict ?row]) (self_db ?c) =
          call_loop widgets_db (u_get_table_names widgets_db (self_db ?c)) ''widgets'' []
            (execute widgets_db
               (''INSERT INTO '' @ ''widgets'' @ '' ('' @ join '', '' (sort (keys ?row)) @
                  '') VALUES ('' @ join '', '' (replicate (length ?row) ''%s'') @ '')'')
               vals [])"
    by auto
  from len obtain x y where xy: "vals = [x, y]"
    by (cases vals; cases "tl vals") auto
  from vs have "map_of ?row (sort (keys ?row) ! 0) = Some (vals ! 0)"
    and "map_of ?row (sort (keys ?row) ! 1) = Some (vals ! 1)" by simp_all
  then have "vals = [''1'', ''A'']" unfolding srt xy by simp
  with run have 2: "call_loop widgets_db [''widgets''] [] [Str ''widgets'', Dict ?row] [] =
     (Inr ''widgets'', [(''INSERT INTO widgets (id, name) VALUES (%s, %s)'', [''1'', ''A''])])"
    unfolding srt by (simp add: widgets_db_simps)
  from pre d bad good 1 2 show ?thesis by simp
qed

text \<open>
  C2 fails in the source for a column name that ends in a newline. Being matched by
  \<^verbatim>\<open>colname_re\<close> is not the same as consisting of the characters
  \<^verbatim>\<open>[A-Za-z0-9_]\<close>: the \<^verbatim>\<open>$\<close> of the pattern also matches before a newline that ends
  the string (lemma \<open>colname_re_match_iff\<close>). For a record whose
  only column is named \<^verbatim>\<open>id\<close> followed by a newline, the column name has a character
  outside the class, yet it is matched, no \<^verbatim>\<open>ValueError\<close> is raised, and the
  \<^verbatim>\<open>INSERT\<close> is executed with the newline in its text.
\<close>

theorem call_accepts_trailing_newline:
  "\<not> list_all colname_char (''id'' @ [CHR 0x0A]) \<and>
   colname_re_match (''id'' @ [CHR 0x0A]) \<and>
   call widgets_db \<lparr>self_db = [], self_a = None\<rparr>
       [Str ''widgets'', Dict [(''id'' @ [CHR 0x0A], ''1'')]] =
     (Inr (),
      \<lparr>self_db = [(''INSERT INTO widgets (id'' @ [CHR 0x0A] @ '') VALUES (%s)'', [''1''])],
       self_a = Some [(''widgets'', [(''1'', widget ''1'' ''A'')])]\<rparr>)"
  by (simp add: call_def widgets_db_simps widgets_dump colname_re_match_def colname_char_def
      less_eq_char_def insert_sql_def)

text \<open>
  C3. \<^verbatim>\<open>_delete_data\<close> truncates the tables exactly when the environment gives
  \<^verbatim>\<open>YES_PLEASE_DELETE_ALL_MY_DATA_VERY_OFTEN\<close> the expected phrase. When the variable is
  not set the subscript raises \<^verbatim>\<open>KeyError\<close>, when it has another value the method raises
  \<^verbatim>\<open>Exception("Heck.")\<close> (the specification's SafetyViolationError); in both cases the
  context and its database are unchanged, whatever \<open>execute\<close> does, so no statement was
  issued.
\<close>

theorem delete_data_guard:
  "(environ ''YES_PLEASE_DELETE_ALL_MY_DATA_VERY_OFTEN'' = None \<longrightarrow>
      u_delete_data db environ self = (Inl KeyError, self)) \<and>
   (\<forall>safety_belt. environ ''YES_PLEASE_DELETE_ALL_MY_DATA_VERY_OFTEN'' = Some safety_belt \<and>
      safety_belt \<noteq> ''Pretty please, with sugar on top.'' \<longrightarrow>
      u_delete_data db environ self = (Inl (Exception ''Heck.''), self)) \<and>
   (environ ''YES_PLEASE_DELETE_ALL_MY_DATA_VERY_OFTEN'' = Some ''Pretty please, with sugar on top.'' \<longrightarrow>
      u_delete_data db environ self =
        (Inr (),
         self\<lparr>self_db :=
           fold (\<lambda>table_name. execute db (''TRUNCATE TABLE '' @ table_name @ '' CASCADE'') [])
             (u_get_table_names db (self_db self)) (self_db self)\<rparr>)) \<and>
   ((fst (u_delete_data db environ self) = Inr ()) =
      (environ ''YES_PLEASE_DELETE_ALL_MY_DATA_VERY_OFTEN'' = Some ''Pretty please, with sugar on top.''))"
  by (auto simp: u_delete_data_def truncate_loop_fold split: option.splits)

theorem delete_data_guard_witness:
  "u_delete_data widgets_db Map.empty fresh = (Inl KeyError, fresh) \<and>
   u_delete_data widgets_db [''YES_PLEASE_DELETE_ALL_MY_DATA_VERY_OFTEN'' \<mapsto> ''yes''] fresh =
     (Inl (Exception ''Heck.''), fresh) \<and>
   u_delete_data widgets_db
     [''YES_PLEASE_DELETE_ALL_MY_DATA_VERY_OFTEN'' \<mapsto> ''Pretty please, with sugar on top.''] fresh =
     (Inr (), fresh\<lparr>self_db := self_db fresh @ [(''TRUNCATE TABLE widgets CASCADE'', [])]\<rparr>)"
proof -
  have 1: "u_delete_data widgets_db Map.empty fresh = (Inl KeyError, fresh)"
    using delete_data_guard[of Map.empty widgets_db fresh] by simp
  have 2: "u_delete_data widgets_db [''YES_PLEASE_DELETE_ALL_MY_DATA_VERY_OFTEN'' \<mapsto> ''yes''] fresh =
     (Inl (Exception ''Heck.''), fresh)"
    using delete_data_guard[of "[''YES_PLEASE_DELETE_ALL_MY_DATA_VERY_OFTEN'' \<mapsto> ''yes'']"
        widgets_db fresh] by simp
  have 3: "u_delete_data widgets_db
     [''YES_PLEASE_DELETE_ALL_MY_DATA_VERY_OFTEN'' \<mapsto> ''Pretty please, with sugar on top.''] fresh =
     (Inr (), fresh\<lparr>self_db := self_db fresh @ [(''TRUNCATE TABLE widgets CASCADE'', [])]\<rparr>)"
    using delete_data_guard[of
        "[''YES_PLEASE_DELETE_ALL_MY_DATA_VERY_OFTEN'' \<mapsto> ''Pretty please, with sugar on top.'']"
        widgets_db fresh]
    by (simp add: widgets_db_simps)
  from 1 2 3 show ?thesis by simp
qed

text \<open>
  C8. Here objects have an identity. Let \<^verbatim>\<open>self.a\<close> refer, in the heap \<open>h\<close>, to a dump
  of value \<open>a_v\<close>, and let \<^verbatim>\<open>diff\<close> end with the heap \<open>h'\<close>. Then \<^verbatim>\<open>diff\<close> has
  assigned no attribute; \<open>h\<close> is an initial segment of \<open>h'\<close>, that is, every object that
  existed before the call is unchanged, and \<^verbatim>\<open>self.a\<close> still refers to a dump of value
  \<open>a_v\<close>; the result (or the error) is that of \<open>diff\<close> on values with the baseline
  \<open>a_v\<close>; every row object the result refers to was allocated during the call, by the deep
  copy or by the new dump, so none is an object of the baseline; a second call returns an
  equal result; all this holds after any number of calls; and when the context and the heap
  are those a load has left, \<open>a_v\<close> is the dump that the load took.
\<close>

theorem diff_keeps_baseline:
  assumes "self_a self = Some a0" and "read_dump h a0 = Inr a_v"
    and "h_diff ne db self h compact = (res, self', h')"
  shows "self' = self \<and> take (length h) h' = h \<and> read_dump h' a0 = Inr a_v \<and>
         read_result h' res = fst (diff ne db \<lparr>self_db = self_db self, self_a = Some a_v\<rparr> compact) \<and>
         (\<forall>out. res = Inr out \<longrightarrow> (\<forall>r\<in>set (out_refs out). length h \<le> r)) \<and>
         (\<forall>res2 self2 h2. h_diff ne db self' h' compact = (res2, self2, h2) \<longrightarrow>
            read_result h2 res2 = read_result h' res) \<and>
         (\<forall>n. \<exists>hn. ((\<lambda>(self, h). snd (h_diff ne db self h compact)) ^^ n) (self, h) = (self, hn) \<and>
            take (length h) hn = h \<and> read_dump hn a0 = Inr a_v) \<and>
         (\<forall>self0 h0 data. h_call db self0 h0 data = (Inr (), self, h) \<longrightarrow>
            dump db (self_db self) = Inr a_v)"
proof -
  note step = h_diff_step[OF assms]
  have again: "read_result h2 res2 = read_result h' res"
    if "h_diff ne db self' h' compact = (res2, self2, h2)" for res2 self2 h2
  proof -
    from step have s: "self_a self' = Some a0" "read_dump h' a0 = Inr a_v" "self' = self"
      using assms(1) by simp_all
    from h_diff_step[OF s(1,2) that] step show ?thesis by simp
  qed
  have iter: "\<exists>hn. ((\<lambda>(self, h). snd (h_diff ne db self h compact)) ^^ n) (self, h) = (self, hn) \<and>
            take (length h) hn = h \<and> read_dump hn a0 = Inr a_v" for n
    using h_diff_iterated[OF assms(1,2), where db = db and compact = compact and n = n and ne = ne]
    by auto
  have load: "dump db (self_db self) = Inr a_v"
    if "h_call db self0 h0 data = (Inr (), self, h)" for self0 h0 data
    using h_call_baseline[OF that] assms(1,2) by auto
  from step again iter load show ?thesis by auto
qed

theorem diff_keeps_baseline_witness:
  "h_call widgets_db \<lparr>self_db = [], self_a = None\<rparr> []
       [Str ''widgets'', Dict [(''name'', ''A''), (''id'', ''1'')]] =
     (Inr (), loaded, loaded_heap) \<and>
   self_a loaded = Some 2 \<and>
   read_dump loaded_heap 2 = Inr [(''widgets'', [(''1'', widget ''1'' ''A'')])] \<and>
   (\<exists>res h'. h_diff str_ne widgets_db loaded loaded_heap False = (res, loaded, h') \<and>
      take (length loaded_heap) h' = loaded_heap \<and>
      read_dump h' 2 = Inr [(''widgets'', [(''1'', widget ''1'' ''A'')])] \<and>
      read_result h' res = Inr [])"
proof -
  have a: "self_a loaded = Some 2" by (simp add: loaded_def)
  obtain res self' h' where run: "h_diff str_ne widgets_db loaded loaded_heap False = (res, self', h')"
    using h_diff_total by blast
  from diff_keeps_baseline[OF a loaded_read run]
  have "self' = loaded" "take (length loaded_heap) h' = loaded_heap"
    "read_dump h' 2 = Inr [(''widgets'', [(''1'', widget ''1'' ''A'')])]"
    "read_result h' res = Inr []"
    by (simp_all add: widgets_diff_same)
  with run widgets_h_call a loaded_read show ?thesis by blast
qed

end
